theory Spec2Isabelle
  imports Main
begin

section \<open>Fermat primality scan: the program\<close>

text \<open>
  The development follows \<^verbatim>\<open>main.c\<close>: a sorted list of Carmichael numbers read from a
  file and searched by bisection, a rejection sampler for a base coprime to the candidate, the
  Fermat test over \<open>k\<close> bases, and the chunked scan that writes one CSV row per candidate.

  Conventions of the embedding.
  \<^item> \<^verbatim>\<open>uint64_t\<close> and \<^verbatim>\<open>size_t\<close> values are naturals; where the C arithmetic can leave the
    64-bit range the reduction \<open>mod 2 ^ 64\<close> is written out.
  \<^item> \<^verbatim>\<open>mpz_t\<close> values are naturals (the program only builds them from unsigned machine words
    and from residues); GMP's functions are taken at their documented meaning.
  \<^item> A computation has type \<open>(fault + 'a) option\<close>: \<open>None\<close> is a loop that never
    ends, \<open>Some (Inl f)\<close> an abnormal end of the process, \<open>Some (Inr v)\<close> a result.
\<close>

subsection \<open>Abnormal ends\<close>

datatype fault =
    Exit_fopen_carmichael   \<comment> \<open>\<^verbatim>\<open>perror("fopen carmichael"); exit(1);\<close>\<close>
  | Return_fopen_results    \<comment> \<open>\<^verbatim>\<open>perror("fopen results.csv"); return 1;\<close>\<close>
  | Divide_by_zero          \<comment> \<open>GMP's division by zero (a modulus of 0)\<close>
  | Index_out_of_bounds     \<comment> \<open>a read of \<^verbatim>\<open>carmichael_list\<close> outside its \<^verbatim>\<open>carmichael_count\<close> entries\<close>

subsection \<open>The Carmichael list\<close>

definition INITIAL_CAP :: nat where
  "INITIAL_CAP = 1024"

text \<open>
  The reading loop of \<^verbatim>\<open>load_carmichael\<close>. The file is the sequence of numbers that
  \<^verbatim>\<open>fscanf\<close> converts one after the other; the loop ends with the sequence or at the
  first number above \<open>max_val\<close>. The buffer is a list that grows at its end, \<open>cap\<close> is
  the capacity the program keeps beside it.
\<close>

fun load_loop :: "nat list \<Rightarrow> nat \<Rightarrow> nat \<Rightarrow> nat list \<Rightarrow> nat \<times> nat list" where
  "load_loop [] max_val cap carmichael_list = (cap, carmichael_list)"
| "load_loop (x # f) max_val cap carmichael_list =
     (if x > max_val then (cap, carmichael_list)
      else
        let cap' = (if length carmichael_list \<ge> cap then cap * 2 else cap)
        in load_loop f max_val cap' (carmichael_list @ [x]))"

text \<open>\<open>None\<close> is a file that \<^verbatim>\<open>fopen\<close> cannot open.\<close>

definition load_carmichael :: "nat list option \<Rightarrow> nat \<Rightarrow> fault + nat list" where
  "load_carmichael file max_val =
     (case file of
        None \<Rightarrow> Inl Exit_fopen_carmichael
      | Some f \<Rightarrow> Inr (snd (load_loop f max_val INITIAL_CAP [])))"

text \<open>
  The bisection of \<^verbatim>\<open>is_carmichael\<close>. \<open>lo + hi\<close> is a \<^verbatim>\<open>size_t\<close> sum, reduced
  modulo \<open>2 ^ 64\<close>; the midpoint is below \<open>2 ^ 63\<close>, so \<open>mid + 1\<close> cannot wrap. A read
  at an index that is not below the length of the list is the fault \<open>Index_out_of_bounds\<close>.
\<close>

partial_function (option) bsearch_loop ::
  "nat list \<Rightarrow> nat \<Rightarrow> nat \<Rightarrow> nat \<Rightarrow> (fault + nat) option" where
  "bsearch_loop carmichael_list n lo hi =
     (if lo < hi then
        (let mid = ((lo + hi) mod 2 ^ 64) div 2
         in if mid \<ge> length carmichael_list then Some (Inl Index_out_of_bounds)
            else if carmichael_list ! mid < n then bsearch_loop carmichael_list n (mid + 1) hi
            else bsearch_loop carmichael_list n lo mid)
      else Some (Inr lo))"

declare bsearch_loop.simps [code]

definition is_carmichael :: "nat list \<Rightarrow> nat \<Rightarrow> (fault + bool) option" where
  "is_carmichael carmichael_list n =
     (case bsearch_loop carmichael_list n 0 (length carmichael_list) of
        None \<Rightarrow> None
      | Some (Inl e) \<Rightarrow> Some (Inl e)
      | Some (Inr lo) \<Rightarrow> Some (Inr (lo < length carmichael_list \<and> carmichael_list ! lo = n)))"

subsection \<open>The random number generator\<close>

text \<open>
  A \<^verbatim>\<open>gmp_randstate_t\<close> is the infinite sequence of raw numbers the generator will
  produce and the number of draws made so far. \<^verbatim>\<open>mpz_urandomm(base, state, n)\<close> returns a
  number in \<open>[0, n - 1]\<close>: the next raw number modulo \<open>n\<close>. Every sequence of results
  that the generator can give is the image of some raw sequence, so a statement for all
  states is a statement for all generators and seeds.
\<close>

record gmp_randstate =
  raw :: "nat \<Rightarrow> nat"
  pos :: nat

definition mpz_urandomm :: "gmp_randstate \<Rightarrow> nat \<Rightarrow> fault + nat \<times> gmp_randstate" where
  "mpz_urandomm state n =
     (if n = 0 then Inl Divide_by_zero
      else Inr (raw state (pos state) mod n, state\<lparr>pos := pos state + 1\<rparr>))"

definition mpz_powm :: "nat \<Rightarrow> nat \<Rightarrow> nat \<Rightarrow> nat" where
  "mpz_powm b e m = b ^ e mod m"

subsection \<open>The sampler and the Fermat test\<close>

text \<open>
  \<^verbatim>\<open>generate_random_coprime\<close>: a \<^verbatim>\<open>do ... while\<close> loop with no bound on its
  iterations.
\<close>

partial_function (option) generate_random_coprime ::
  "nat \<Rightarrow> gmp_randstate \<Rightarrow> (fault + nat \<times> gmp_randstate) option" where
  "generate_random_coprime n state =
     (case mpz_urandomm state n of
        Inl e \<Rightarrow> Some (Inl e)
      | Inr (r, state') \<Rightarrow>
          (let base = (if r < 2 then r + 2 else if r \<ge> n then r mod n else r);
               g = gcd base n
           in if g \<noteq> 1 then generate_random_coprime n state'
              else Some (Inr (base, state'))))"

declare generate_random_coprime.simps [code]

text \<open>
  The \<^verbatim>\<open>for\<close> loop of \<^verbatim>\<open>fermat_test_gmp\<close>, from counter \<open>i\<close>. The result is the
  returned \<^verbatim>\<open>int\<close>, the value left in \<^verbatim>\<open>witness\<close>, and the generator's state.
  The exponent \<open>n - 1\<close> is only used after the sampler has returned, hence for \<open>n > 0\<close>.
\<close>

function fermat_loop ::
  "nat \<Rightarrow> int \<Rightarrow> int \<Rightarrow> gmp_randstate \<Rightarrow> (fault + int \<times> nat \<times> gmp_randstate) option" where
  "fermat_loop n k i state =
     (if i < k then
        (case generate_random_coprime n state of
           None \<Rightarrow> None
         | Some (Inl e) \<Rightarrow> Some (Inl e)
         | Some (Inr (a, state')) \<Rightarrow>
             (let t = mpz_powm a (n - 1) n
              in if t \<noteq> 1 then Some (Inr (0, a, state'))
                 else fermat_loop n k (i + 1) state'))
      else Some (Inr (1, 0, state)))"
  by pat_completeness auto
termination
  by (relation "measure (\<lambda>(n, k, i, state). nat (k - i))") auto

definition fermat_test_gmp ::
  "nat \<Rightarrow> int \<Rightarrow> gmp_randstate \<Rightarrow> (fault + int \<times> nat \<times> gmp_randstate) option" where
  "fermat_test_gmp n k state = fermat_loop n k 0 state"

subsection \<open>The scan\<close>

text \<open>
  A row of \<^verbatim>\<open>results.csv\<close>. The column \<^verbatim>\<open>elapsed_ns\<close> is the reading of a clock and
  takes no part in any decision; it is left out. The witness column is empty (\<open>None\<close>) in
  a row of a probable prime.
\<close>

record row =
  row_n :: nat
  row_bit_len :: nat
  row_is_probably_prime :: int
  row_witness :: "nat option"
  row_is_really_prime :: int

fun bits :: "nat \<Rightarrow> nat" where
  "bits x = (if x = 0 then 0 else Suc (bits (x div 2)))"

definition clzll :: "nat \<Rightarrow> nat" where
  "clzll x = 64 - bits x"

text \<open>The body of the inner loop, lines 113 to 145, for the candidate \<open>x\<close>.\<close>

definition scan_body ::
  "nat \<Rightarrow> int \<Rightarrow> nat list \<Rightarrow> gmp_randstate \<Rightarrow> (fault + row \<times> gmp_randstate) option" where
  "scan_body x k carmichael_list state =
     (case fermat_test_gmp x k state of
        None \<Rightarrow> None
      | Some (Inl e) \<Rightarrow> Some (Inl e)
      | Some (Inr (is_prime, witness, state')) \<Rightarrow>
          (let bit_len = (if x = 0 then 1 else 64 - clzll x)
           in if is_prime \<noteq> 0 then
                (case is_carmichael carmichael_list x of
                   None \<Rightarrow> None
                 | Some (Inl e) \<Rightarrow> Some (Inl e)
                 | Some (Inr c) \<Rightarrow>
                     Some (Inr (\<lparr>row_n = x, row_bit_len = bit_len, row_is_probably_prime = 1,
                                 row_witness = None,
                                 row_is_really_prime = (if c then 0 else 1)\<rparr>, state')))
              else
                Some (Inr (\<lparr>row_n = x, row_bit_len = bit_len, row_is_probably_prime = 0,
                            row_witness = Some witness, row_is_really_prime = 0\<rparr>, state'))))"

text \<open>
  The inner loop \<^verbatim>\<open>for (x = start; x <= end; ++x)\<close> and the outer loop
  \<^verbatim>\<open>for (start = ...; start <= MAX_VAL; start += CHUNK)\<close>, on 64-bit unsigned counters:
  \<^verbatim>\<open>++x\<close> and \<^verbatim>\<open>start += CHUNK\<close> are reduced modulo \<open>2 ^ 64\<close>, and in
  \<^verbatim>\<open>end = start + CHUNK - 1\<close> the subtraction of 1 modulo \<open>2 ^ 64\<close> is the addition of
  \<open>2 ^ 64 - 1\<close>. \<open>out\<close> is the list of rows written so far.
\<close>

partial_function (option) inner_loop ::
  "nat \<Rightarrow> nat \<Rightarrow> int \<Rightarrow> nat list \<Rightarrow> gmp_randstate \<Rightarrow> row list
    \<Rightarrow> (fault + row list \<times> gmp_randstate) option" where
  "inner_loop x end k carmichael_list state out =
     (if x \<le> end then
        (case scan_body x k carmichael_list state of
           None \<Rightarrow> None
         | Some (Inl e) \<Rightarrow> Some (Inl e)
         | Some (Inr (r, state')) \<Rightarrow>
             inner_loop ((x + 1) mod 2 ^ 64) end k carmichael_list state' (out @ [r]))
      else Some (Inr (out, state)))"

declare inner_loop.simps [code]

partial_function (option) outer_loop ::
  "nat \<Rightarrow> nat \<Rightarrow> nat \<Rightarrow> int \<Rightarrow> nat list \<Rightarrow> gmp_randstate \<Rightarrow> row list
    \<Rightarrow> (fault + row list \<times> gmp_randstate) option" where
  "outer_loop start MAX_VAL CHUNK k carmichael_list state out =
     (if start \<le> MAX_VAL then
        (let end0 = (start + CHUNK + (2 ^ 64 - 1)) mod 2 ^ 64;
             end = (if end0 > MAX_VAL then MAX_VAL else end0)
         in case inner_loop start end k carmichael_list state out of
              None \<Rightarrow> None
            | Some (Inl e) \<Rightarrow> Some (Inl e)
            | Some (Inr (out', state')) \<Rightarrow>
                outer_loop ((start + CHUNK) mod 2 ^ 64) MAX_VAL CHUNK k carmichael_list state' out')
      else Some (Inr (out, state)))"

declare outer_loop.simps [code]

text \<open>
  The scan of \<^verbatim>\<open>main\<close>, lines 108 to 147, with its constants as parameters: the first
  candidate (1 in the program), \<open>MAX_VAL\<close>, \<open>CHUNK\<close> and \<open>k\<close>.
\<close>

definition scan ::
  "nat \<Rightarrow> nat \<Rightarrow> nat \<Rightarrow> int \<Rightarrow> nat list \<Rightarrow> gmp_randstate
    \<Rightarrow> (fault + row list \<times> gmp_randstate) option" where
  "scan low MAX_VAL CHUNK k carmichael_list state =
     outer_loop low MAX_VAL CHUNK k carmichael_list state []"

text \<open>
  \<^verbatim>\<open>main\<close>: the file of Carmichael numbers (or \<open>None\<close>), whether \<^verbatim>\<open>results.csv\<close> can
  be opened for writing, and the state of the generator after seeding. The result is the
  list of rows written.
\<close>

definition main :: "nat list option \<Rightarrow> bool \<Rightarrow> gmp_randstate \<Rightarrow> (fault + row list) option" where
  "main carmichael_file results_writable state =
     (let bit_length = 32 :: nat;
          k = 16;
          MAX_VAL = 2 ^ bit_length - 1;
          CHUNK = 1000000
      in case load_carmichael carmichael_file MAX_VAL of
           Inl e \<Rightarrow> Some (Inl e)
         | Inr carmichael_list \<Rightarrow>
             if \<not> results_writable then Some (Inl Return_fopen_results)
             else map_option (map_sum id fst) (scan 1 MAX_VAL CHUNK k carmichael_list state))"

subsection \<open>Notions of the specification\<close>

text \<open>Primality, by trial division.\<close>

definition is_prime :: "nat \<Rightarrow> bool" where
  "is_prime n = (1 < n \<and> (\<forall>d \<in> {2..<n}. \<not> d dvd n))"

text \<open>
  The scan without chunks, as the specification words it: the candidates of \<open>[low, high]\<close>
  in ascending order, each classified by the loop body of the program.
\<close>

primrec classify_list ::
  "nat list \<Rightarrow> int \<Rightarrow> nat list \<Rightarrow> gmp_randstate \<Rightarrow> row list
    \<Rightarrow> (fault + row list \<times> gmp_randstate) option" where
  "classify_list [] k carmichael_list state out = Some (Inr (out, state))"
| "classify_list (x # xs) k carmichael_list state out =
     (case scan_body x k carmichael_list state of
        None \<Rightarrow> None
      | Some (Inl e) \<Rightarrow> Some (Inl e)
      | Some (Inr (r, state')) \<Rightarrow> classify_list xs k carmichael_list state' (out @ [r]))"

definition unchunked_scan ::
  "nat \<Rightarrow> nat \<Rightarrow> int \<Rightarrow> nat list \<Rightarrow> gmp_randstate
    \<Rightarrow> (fault + row list \<times> gmp_randstate) option" where
  "unchunked_scan low high k carmichael_list state =
     classify_list [low..<Suc high] k carmichael_list state []"

text \<open>
  A generator whose raw numbers are all the same, for the concrete runs below.
\<close>

definition const_stream :: "nat \<Rightarrow> nat \<Rightarrow> nat" where
  "const_stream c i = c"

text \<open>What a scan has written, as pairs of the first and the last column.\<close>

definition flags ::
  "(fault + row list \<times> gmp_randstate) option \<Rightarrow> (fault + (nat \<times> int) list) option" where
  "flags res =
     map_option (map_sum id (\<lambda>(rows, state). map (\<lambda>r. (row_n r, row_is_really_prime r)) rows)) res"

declare fermat_loop.simps [simp del]

section \<open>The Carmichael list: loading and searching\<close>

lemma mid_no_wrap:
  fixes lo hi len :: nat
  assumes "lo < hi" "hi \<le> len" "len < 2 ^ 63"
  shows "((lo + hi) mod 2 ^ 64) div 2 = (lo + hi) div 2"
    and "lo \<le> (lo + hi) div 2" and "(lo + hi) div 2 < hi"
proof -
  have "lo + hi < (2::nat) ^ 64" using assms by simp
  then show "((lo + hi) mod 2 ^ 64) div 2 = (lo + hi) div 2" by simp
  show "lo \<le> (lo + hi) div 2" using assms by linarith
  show "(lo + hi) div 2 < hi" using assms by linarith
qed

lemma bsearch_loop_returns:
  "lo \<le> hi \<Longrightarrow> hi \<le> length cl \<Longrightarrow> length cl < 2 ^ 63 \<Longrightarrow>
   \<exists>r. bsearch_loop cl n lo hi = Some (Inr r) \<and> lo \<le> r \<and> r \<le> hi"
proof (induction "hi - lo" arbitrary: lo hi rule: less_induct)
  case less
  show ?case
  proof (cases "lo < hi")
    case False
    then show ?thesis using less.prems by (subst bsearch_loop.simps) simp
  next
    case True
    let ?mid = "(lo + hi) div 2"
    have m: "((lo + hi) mod 2 ^ 64) div 2 = ?mid" "lo \<le> ?mid" "?mid < hi"
      using mid_no_wrap [OF True less.prems(2) less.prems(3)] by simp_all
    have inb: "?mid < length cl" using m less.prems by linarith
    show ?thesis
    proof (cases "cl ! ?mid < n")
      case c: True
      have "\<exists>r. bsearch_loop cl n (?mid + 1) hi = Some (Inr r) \<and> ?mid + 1 \<le> r \<and> r \<le> hi"
        using m less.prems by (intro less.hyps) simp_all
      then obtain r where r: "bsearch_loop cl n (?mid + 1) hi = Some (Inr r)" "?mid + 1 \<le> r" "r \<le> hi"
        by blast
      have "bsearch_loop cl n lo hi = bsearch_loop cl n (?mid + 1) hi"
        using True m(1) inb c by (subst bsearch_loop.simps) (simp add: Let_def)
      then show ?thesis using r m by auto
    next
      case c: False
      have "\<exists>r. bsearch_loop cl n lo ?mid = Some (Inr r) \<and> lo \<le> r \<and> r \<le> ?mid"
        using m less.prems True by (intro less.hyps) linarith+
      then obtain r where r: "bsearch_loop cl n lo ?mid = Some (Inr r)" "lo \<le> r" "r \<le> ?mid"
        by blast
      have "bsearch_loop cl n lo hi = bsearch_loop cl n lo ?mid"
        using True m(1) inb c by (subst bsearch_loop.simps) (simp add: Let_def)
      then show ?thesis using r m by auto
    qed
  qed
qed

lemma bsearch_loop_lower_bound:
  "sorted cl \<Longrightarrow> lo \<le> hi \<Longrightarrow> hi \<le> length cl \<Longrightarrow> length cl < 2 ^ 63 \<Longrightarrow>
   (\<forall>i<lo. cl ! i < n) \<Longrightarrow> (\<forall>i. hi \<le> i \<and> i < length cl \<longrightarrow> n \<le> cl ! i) \<Longrightarrow>
   \<exists>r. bsearch_loop cl n lo hi = Some (Inr r) \<and> r \<le> length cl \<and>
       (\<forall>i<r. cl ! i < n) \<and> (\<forall>i. r \<le> i \<and> i < length cl \<longrightarrow> n \<le> cl ! i)"
proof (induction "hi - lo" arbitrary: lo hi rule: less_induct)
  case less
  show ?case
  proof (cases "lo < hi")
    case False
    then have "bsearch_loop cl n lo hi = Some (Inr lo)"
      by (subst bsearch_loop.simps) simp
    moreover have "lo = hi" using False less.prems(2) by simp
    ultimately show ?thesis using less.prems by auto
  next
    case True
    let ?mid = "(lo + hi) div 2"
    have m: "((lo + hi) mod 2 ^ 64) div 2 = ?mid" "lo \<le> ?mid" "?mid < hi"
      using mid_no_wrap [OF True less.prems(3) less.prems(4)] by simp_all
    have inb: "?mid < length cl" using m less.prems by linarith
    show ?thesis
    proof (cases "cl ! ?mid < n")
      case c: True
      have below: "\<forall>i<?mid + 1. cl ! i < n"
      proof (intro allI impI)
        fix i assume "i < ?mid + 1"
        then have "cl ! i \<le> cl ! ?mid"
          using less.prems(1) inb by (simp add: sorted_nth_mono)
        then show "cl ! i < n" using c by simp
      qed
      have step: "bsearch_loop cl n lo hi = bsearch_loop cl n (?mid + 1) hi"
        using True m(1) inb c by (subst bsearch_loop.simps) (simp add: Let_def)
      have "hi - (?mid + 1) < hi - lo" using m by linarith
      moreover have "?mid + 1 \<le> hi" using m by simp
      ultimately show ?thesis
        unfolding step using less.prems below by (intro less.hyps) simp_all
    next
      case c: False
      have above: "\<forall>i. ?mid \<le> i \<and> i < length cl \<longrightarrow> n \<le> cl ! i"
      proof (intro allI impI)
        fix i assume "?mid \<le> i \<and> i < length cl"
        then have "cl ! ?mid \<le> cl ! i"
          using less.prems(1) by (simp add: sorted_nth_mono)
        then show "n \<le> cl ! i" using c by simp
      qed
      have step: "bsearch_loop cl n lo hi = bsearch_loop cl n lo ?mid"
        using True m(1) inb c by (subst bsearch_loop.simps) (simp add: Let_def)
      have "?mid - lo < hi - lo" using m True by linarith
      moreover have "?mid \<le> length cl" using inb by simp
      ultimately show ?thesis
        unfolding step using less.prems above m(2) by (intro less.hyps) simp_all
    qed
  qed
qed

lemma is_carmichael_returns:
  assumes "length cl < 2 ^ 63"
  shows "\<exists>b. is_carmichael cl n = Some (Inr b)"
proof -
  obtain r where "bsearch_loop cl n 0 (length cl) = Some (Inr r)"
    using bsearch_loop_returns [of 0 "length cl" cl n] assms by auto
  then show ?thesis by (simp add: is_carmichael_def)
qed

lemma is_carmichael_member:
  assumes "sorted cl" "length cl < 2 ^ 63"
  shows "is_carmichael cl n = Some (Inr (n \<in> set cl))"
proof -
  obtain r where r: "bsearch_loop cl n 0 (length cl) = Some (Inr r)" "r \<le> length cl"
      "\<forall>i<r. cl ! i < n" "\<forall>i. r \<le> i \<and> i < length cl \<longrightarrow> n \<le> cl ! i"
    using bsearch_loop_lower_bound [of cl 0 "length cl" n] assms by auto
  have "(r < length cl \<and> cl ! r = n) = (n \<in> set cl)"
  proof
    assume "r < length cl \<and> cl ! r = n"
    then show "n \<in> set cl" using nth_mem by blast
  next
    assume "n \<in> set cl"
    then obtain j where j: "j < length cl" "cl ! j = n" by (auto simp: in_set_conv_nth)
    have "r \<le> j" using r(3) j by (meson not_less order_less_irrefl)
    then have "r < length cl" using j by simp
    moreover have "n \<le> cl ! r" using r(4) \<open>r < length cl\<close> by simp
    moreover have "cl ! r \<le> cl ! j" using assms(1) \<open>r \<le> j\<close> j(1) by (simp add: sorted_nth_mono)
    ultimately show "r < length cl \<and> cl ! r = n" using j by simp
  qed
  then show ?thesis using r(1) by (simp add: is_carmichael_def)
qed

lemma is_carmichael_absent:
  assumes "n \<notin> set cl" "length cl < 2 ^ 63"
  shows "is_carmichael cl n = Some (Inr False)"
proof -
  obtain r where r: "bsearch_loop cl n 0 (length cl) = Some (Inr r)"
    using bsearch_loop_returns [of 0 "length cl" cl n] assms by auto
  have "\<not> (r < length cl \<and> cl ! r = n)" using assms(1) nth_mem by blast
  then show ?thesis using r by (simp add: is_carmichael_def)
qed

lemma load_loop_takeWhile:
  "snd (load_loop f max_val cap cl) = cl @ takeWhile (\<lambda>x. x \<le> max_val) f"
  by (induction f arbitrary: cap cl) (auto simp: Let_def)

section \<open>Fermat's little theorem\<close>

text \<open>\<open>is_prime\<close> is primality in the usual sense.\<close>

lemma is_prime_iff:
  "is_prime n \<longleftrightarrow> 1 < n \<and> (\<forall>d. d dvd n \<longrightarrow> d = 1 \<or> d = n)"
proof
  assume p: "is_prime n"
  then have n1: "1 < n" by (simp add: is_prime_def)
  have "d = 1 \<or> d = n" if d: "d dvd n" for d
  proof (rule ccontr)
    assume c: "\<not> (d = 1 \<or> d = n)"
    have "d \<le> n" using d n1 by (simp add: dvd_imp_le)
    moreover have "d \<noteq> 0" using d n1 by (cases "d = 0") auto
    ultimately have "d \<in> {2..<n}" using c by auto
    then show False using p d by (simp add: is_prime_def)
  qed
  then show "1 < n \<and> (\<forall>d. d dvd n \<longrightarrow> d = 1 \<or> d = n)" using n1 by blast
next
  assume h: "1 < n \<and> (\<forall>d. d dvd n \<longrightarrow> d = 1 \<or> d = n)"
  then show "is_prime n" by (auto simp: is_prime_def)
qed

lemma is_prime_coprime:
  assumes "is_prime p" "0 < a" "a < p"
  shows "coprime a p"
proof -
  let ?g = "gcd a p"
  have g1: "?g dvd p" and g2: "?g dvd a" by simp_all
  have "?g \<le> a" using g2 assms(2) by (simp add: dvd_imp_le)
  then have "?g < p" using assms(3) by simp
  moreover have "0 < ?g" using assms(2) by (simp add: gcd_pos_nat)
  ultimately have "?g = 1"
    using assms(1) g1 unfolding is_prime_def
    by (metis One_nat_def Suc_1 Suc_leI atLeastLessThan_iff le_neq_implies_less)
  then show ?thesis by (simp add: coprime_iff_gcd_eq_1)
qed

lemma is_prime_dvd_choose:
  assumes "is_prime p" "0 < k" "k < p"
  shows "p dvd (p choose k)"
proof -
  have "k * (p choose k) = p * (p - 1 choose (k - 1))"
    using times_binomial_minus1_eq [OF assms(2)] .
  then have "p dvd k * (p choose k)" by simp
  moreover have "coprime p k"
    using is_prime_coprime [OF assms] by (simp add: coprime_commute)
  ultimately show ?thesis by (simp add: coprime_dvd_mult_right_iff)
qed

lemma is_prime_succ_power:
  fixes a :: nat
  assumes "is_prime p"
  shows "(a + 1) ^ p mod p = (a ^ p + 1) mod p"
proof -
  obtain q where q: "p = Suc q" using assms by (cases p) (auto simp: is_prime_def)
  let ?f = "\<lambda>k. (p choose k) * a ^ k"
  have "(a + 1) ^ p = (\<Sum>k\<le>p. ?f k)"
    using binomial [of a 1 p] by (simp add: mult.commute)
  also have "\<dots> = ?f 0 + (\<Sum>i<q. ?f (Suc i)) + ?f (Suc q)"
    unfolding q sum.atMost_Suc by (simp add: sum.atMost_shift)
  finally have split: "(a + 1) ^ p = (\<Sum>i<q. ?f (Suc i)) + (a ^ p + 1)"
    by (simp add: q)
  have "p dvd (\<Sum>i<q. ?f (Suc i))"
  proof (rule dvd_sum)
    fix i assume "i \<in> {..<q}"
    then have "p dvd (p choose Suc i)"
      using is_prime_dvd_choose [OF assms, of "Suc i"] q by simp
    then show "p dvd ?f (Suc i)" by simp
  qed
  then obtain c where "(\<Sum>i<q. ?f (Suc i)) = p * c" by (auto simp: dvd_def)
  then show ?thesis using split by simp
qed

lemma is_prime_power_self:
  fixes a :: nat
  assumes "is_prime p"
  shows "a ^ p mod p = a mod p"
proof (induction a)
  case 0
  have "0 < p" using assms by (simp add: is_prime_def)
  then show ?case by (simp add: zero_power)
next
  case (Suc a)
  have "Suc a ^ p mod p = (a ^ p + 1) mod p"
    using is_prime_succ_power [OF assms, of a] by simp
  also have "\<dots> = (a ^ p mod p + 1) mod p" by (simp add: mod_simps)
  also have "\<dots> = (a mod p + 1) mod p" by (simp add: Suc.IH)
  also have "\<dots> = Suc a mod p" by (simp add: mod_simps)
  finally show ?case .
qed

lemma fermat_little:
  fixes a :: nat
  assumes "is_prime p" "coprime a p"
  shows "a ^ (p - 1) mod p = 1"
proof -
  have p1: "1 < p" using assms(1) by (simp add: is_prime_def)
  have "(int a ^ p) mod int p = int a mod int p"
    using is_prime_power_self [OF assms(1), of a]
    by (metis of_nat_mod of_nat_power)
  then have "int p dvd int a ^ p - int a"
    by (simp add: mod_eq_dvd_iff)
  moreover have "int a ^ p - int a = int a * (int a ^ (p - 1) - 1)"
    using p1 by (cases p) (simp_all add: algebra_simps)
  moreover have "coprime (int p) (int a)"
    using assms(2) by (simp add: coprime_commute)
  ultimately have "int p dvd int a ^ (p - 1) - 1"
    by (simp add: coprime_dvd_mult_right_iff)
  then have "int a ^ (p - 1) mod int p = 1 mod int p"
    by (simp add: mod_eq_dvd_iff)
  then have "int (a ^ (p - 1) mod p) = int 1"
    using p1 by (simp add: of_nat_mod)
  then show ?thesis by (simp only: of_nat_eq_iff)
qed

section \<open>The sampler and the Fermat test: what a returned value satisfies\<close>

lemma sampler_body:
  "(case mpz_urandomm state n of
      Inl e \<Rightarrow> Some (Inl e)
    | Inr (r, state') \<Rightarrow>
        (let base = (if r < 2 then r + 2 else if r \<ge> n then r mod n else r);
             g = gcd base n
         in if g \<noteq> 1 then f n state'
            else Some (Inr (base, state')))) =
   (if n = 0 then Some (Inl Divide_by_zero)
    else let r = raw state (pos state) mod n; base = (if r < 2 then r + 2 else r)
         in if gcd base n \<noteq> 1 then f n (state\<lparr>pos := pos state + 1\<rparr>)
            else Some (Inr (base, state\<lparr>pos := pos state + 1\<rparr>)))"
  by (simp add: mpz_urandomm_def Let_def)

lemma generate_random_coprime_step:
  "generate_random_coprime n state =
     (if n = 0 then Some (Inl Divide_by_zero)
      else let r = raw state (pos state) mod n; base = (if r < 2 then r + 2 else r)
           in if gcd base n \<noteq> 1 then generate_random_coprime n (state\<lparr>pos := pos state + 1\<rparr>)
              else Some (Inr (base, state\<lparr>pos := pos state + 1\<rparr>)))"
  by (subst generate_random_coprime.simps) (rule sampler_body)

lemma generate_random_coprime_post:
  assumes "generate_random_coprime n state = Some y"
  shows "case y of
           Inl e \<Rightarrow> n = 0 \<and> e = Divide_by_zero
         | Inr (a, state') \<Rightarrow>
             0 < n \<and> 2 \<le> a \<and> (a < n \<or> a \<le> 3 \<and> a < n + 2) \<and> gcd a n = 1 \<and>
             raw state' = raw state \<and> pos state < pos state'"
proof (rule generate_random_coprime.raw_induct
    [where P = "\<lambda>n state y. case y of
           Inl e \<Rightarrow> n = 0 \<and> e = Divide_by_zero
         | Inr (a, state') \<Rightarrow>
             0 < n \<and> 2 \<le> a \<and> (a < n \<or> a \<le> 3 \<and> a < n + 2) \<and> gcd a n = 1 \<and>
             raw state' = raw state \<and> pos state < pos state'", OF _ assms])
  fix f n state y
  assume IH: "\<And>n state y. f n state = Some y \<Longrightarrow>
      (case y of
           Inl e \<Rightarrow> n = 0 \<and> e = Divide_by_zero
         | Inr (a, state') \<Rightarrow>
             0 < n \<and> 2 \<le> a \<and> (a < n \<or> a \<le> 3 \<and> a < n + 2) \<and> gcd a n = 1 \<and>
             raw state' = raw state \<and> pos state < pos state')"
    and eq: "(case mpz_urandomm state n of
        Inl e \<Rightarrow> Some (Inl e)
      | Inr (r, state') \<Rightarrow>
          (let base = (if r < 2 then r + 2 else if r \<ge> n then r mod n else r);
               g = gcd base n
           in if g \<noteq> 1 then f n state'
              else Some (Inr (base, state')))) = Some y"
  let ?r = "raw state (pos state) mod n"
  let ?base = "if ?r < 2 then ?r + 2 else ?r"
  let ?state' = "state\<lparr>pos := pos state + 1\<rparr>"
  have eq': "(if n = 0 then Some (Inl Divide_by_zero)
      else let r = raw state (pos state) mod n; base = (if r < 2 then r + 2 else r)
         in if gcd base n \<noteq> 1 then f n (state\<lparr>pos := pos state + 1\<rparr>)
            else Some (Inr (base, state\<lparr>pos := pos state + 1\<rparr>))) = Some y"
    using eq unfolding sampler_body .
  show "case y of
           Inl e \<Rightarrow> n = 0 \<and> e = Divide_by_zero
         | Inr (a, state') \<Rightarrow>
             0 < n \<and> 2 \<le> a \<and> (a < n \<or> a \<le> 3 \<and> a < n + 2) \<and> gcd a n = 1 \<and>
             raw state' = raw state \<and> pos state < pos state'"
  proof (cases "n = 0")
    case True
    then have "y = Inl Divide_by_zero" using eq' by simp
    then show ?thesis using True by simp
  next
    case False
    have r: "?r < n" using False by simp
    show ?thesis
    proof (cases "gcd ?base n = 1")
      case True
      have y: "y = Inr (?base, ?state')"
        using eq' False True by (simp add: Let_def)
      have ex: "2 \<le> ?base \<and> (?base < n \<or> ?base \<le> 3 \<and> ?base < n + 2)"
        using r by auto
      show ?thesis unfolding y using ex True False by simp
    next
      case g: False
      have "f n ?state' = Some y"
        using eq' False g by (simp add: Let_def)
      from IH [OF this] show ?thesis
        by (cases y) (simp_all split: prod.splits)
    qed
  qed
qed

lemma generate_random_coprime_Inr:
  assumes "generate_random_coprime n state = Some (Inr (a, state'))"
  shows "0 < n" "2 \<le> a \<and> (a < n \<or> a \<le> 3 \<and> a < n + 2)" "gcd a n = 1"
    "raw state' = raw state" "pos state < pos state'"
  using generate_random_coprime_post [OF assms] by simp_all

lemma generate_random_coprime_Inl:
  assumes "generate_random_coprime n state = Some (Inl e)"
  shows "n = 0" "e = Divide_by_zero"
  using generate_random_coprime_post [OF assms] by simp_all

lemma generate_random_coprime_range:
  assumes "generate_random_coprime n state = Some (Inr (a, state'))" "3 \<le> n"
  shows "2 \<le> a" "a < n"
proof -
  note p = generate_random_coprime_Inr [OF assms(1)]
  show "2 \<le> a" using p(2) by simp
  have "a \<le> n" using p(2) assms(2) by auto
  moreover have "a \<noteq> n" using p(3) assms(2) by auto
  ultimately show "a < n" by simp
qed

lemma generate_random_coprime_prime:
  assumes "is_prime n" "5 \<le> n"
  shows "\<exists>a. generate_random_coprime n state = Some (Inr (a, state\<lparr>pos := pos state + 1\<rparr>)) \<and> coprime a n"
proof -
  let ?r = "raw state (pos state) mod n"
  let ?base = "if ?r < 2 then ?r + 2 else ?r"
  have "?r < n" using assms(2) by simp
  then have "0 < ?base" "?base < n" using assms(2) by auto
  then have c: "coprime ?base n" using is_prime_coprime [OF assms(1)] by blast
  then have "gcd ?base n = 1" by (simp add: coprime_iff_gcd_eq_1)
  then have "generate_random_coprime n state = Some (Inr (?base, state\<lparr>pos := pos state + 1\<rparr>))"
    using assms(2) by (subst generate_random_coprime_step) (simp add: Let_def)
  then show ?thesis using c by blast
qed

lemma fermat_loop_done:
  "\<not> i < k \<Longrightarrow> fermat_loop n k i state = Some (Inr (1, 0, state))"
  by (subst fermat_loop.simps) simp

lemma fermat_loop_step:
  "i < k \<Longrightarrow> fermat_loop n k i state =
     (case generate_random_coprime n state of
        None \<Rightarrow> None
      | Some (Inl e) \<Rightarrow> Some (Inl e)
      | Some (Inr (a, state')) \<Rightarrow>
          if mpz_powm a (n - 1) n \<noteq> 1 then Some (Inr (0, a, state'))
          else fermat_loop n k (i + 1) state')"
  by (subst fermat_loop.simps) (simp add: Let_def split: option.splits sum.splits)

lemma fermat_loop_post:
  assumes "fermat_loop n k i state = Some (Inr (v, w, state'))"
  shows "(v = 0 \<and> 0 < n \<and> 2 \<le> w \<and> (w < n \<or> w \<le> 3 \<and> w < n + 2) \<and> gcd w n = 1 \<and>
            mpz_powm w (n - 1) n \<noteq> 1 \<and> pos state < pos state')
         \<or> (v = 1 \<and> w = 0 \<and> pos state + nat (k - i) \<le> pos state')"
  using assms
proof (induction n k i state rule: fermat_loop.induct)
  case (1 n k i state)
  show ?case
  proof (cases "i < k")
    case False
    then show ?thesis using "1.prems" by (simp add: fermat_loop_done)
  next
    case True
    then obtain y where y: "generate_random_coprime n state = Some y"
      using "1.prems" by (cases "generate_random_coprime n state") (simp_all add: fermat_loop_step)
    then obtain a s1 where a: "y = Inr (a, s1)"
      using "1.prems" True by (cases y) (auto simp: fermat_loop_step)
    note p = generate_random_coprime_Inr [OF y [unfolded a]]
    show ?thesis
    proof (cases "mpz_powm a (n - 1) n = 1")
      case False
      then have "v = 0" "w = a" "state' = s1"
        using "1.prems" True y a by (simp_all add: fermat_loop_step)
      then show ?thesis using p False by simp
    next
      case t: True
      then have rec: "fermat_loop n k (i + 1) s1 = Some (Inr (v, w, state'))"
        using "1.prems" True y a by (simp add: fermat_loop_step)
      have "(v = 0 \<and> 0 < n \<and> 2 \<le> w \<and> (w < n \<or> w \<le> 3 \<and> w < n + 2) \<and> gcd w n = 1 \<and>
            mpz_powm w (n - 1) n \<noteq> 1 \<and> pos s1 < pos state')
         \<or> (v = 1 \<and> w = 0 \<and> pos s1 + nat (k - (i + 1)) \<le> pos state')"
        using "1.IH" [OF True y a refl refl _ rec] t by simp
      then show ?thesis using p(5) True by auto
    qed
  qed
qed

lemma fermat_loop_prime:
  assumes "is_prime n" "5 \<le> n"
  shows "fermat_loop n k i state = Some (Inr (1, 0, state\<lparr>pos := pos state + nat (k - i)\<rparr>))"
  using assms
proof (induction n k i state rule: fermat_loop.induct)
  case (1 n k i state)
  show ?case
  proof (cases "i < k")
    case False
    then show ?thesis by (simp add: fermat_loop_done)
  next
    case True
    let ?s1 = "state\<lparr>pos := pos state + 1\<rparr>"
    obtain a where a: "generate_random_coprime n state = Some (Inr (a, ?s1))" "coprime a n"
      using generate_random_coprime_prime [OF "1.prems"] by blast
    have t: "mpz_powm a (n - 1) n = 1"
      using fermat_little [OF "1.prems"(1) a(2)] by (simp add: mpz_powm_def)
    have "fermat_loop n k (i + 1) ?s1 = Some (Inr (1, 0, ?s1\<lparr>pos := pos ?s1 + nat (k - (i + 1))\<rparr>))"
      using "1.IH" [OF True a(1) refl refl refl _ "1.prems"] t by simp
    moreover have "pos state + 1 + nat (k - (i + 1)) = pos state + nat (k - i)"
      using True by simp
    ultimately show ?thesis
      using True a(1) t by (simp add: fermat_loop_step)
  qed
qed

lemma generate_random_coprime_even_forever:
  assumes "generate_random_coprime n state = Some y"
  shows "\<not> (n = 2 \<and> (\<forall>j. raw state j = 0))"
proof (rule generate_random_coprime.raw_induct
    [where P = "\<lambda>n state y. \<not> (n = 2 \<and> (\<forall>j. raw state j = 0))", OF _ assms])
  fix f n state y
  assume IH: "\<And>n state y. f n state = Some y \<Longrightarrow> \<not> (n = 2 \<and> (\<forall>j. raw state j = 0))"
    and eq: "(case mpz_urandomm state n of
        Inl e \<Rightarrow> Some (Inl e)
      | Inr (r, state') \<Rightarrow>
          (let base = (if r < 2 then r + 2 else if r \<ge> n then r mod n else r);
               g = gcd base n
           in if g \<noteq> 1 then f n state'
              else Some (Inr (base, state')))) = Some y"
  show "\<not> (n = 2 \<and> (\<forall>j. raw state j = 0))"
  proof
    assume h: "n = 2 \<and> (\<forall>j. raw state j = 0)"
    have "f n (state\<lparr>pos := pos state + 1\<rparr>) = Some y"
      using eq h unfolding sampler_body by (simp add: Let_def)
    from IH [OF this] show False using h by simp
  qed
qed

section \<open>Auxiliary facts\<close>

lemma fermat_loop_composite_verdict:
  assumes "fermat_loop n k i state = Some (Inr (0, w, state'))"
  shows "\<not> is_prime n"
proof
  assume p: "is_prime n"
  from fermat_loop_post [OF assms]
  have g: "gcd w n = 1" and t: "mpz_powm w (n - 1) n \<noteq> 1" by simp_all
  have "coprime w n" using g by (simp add: coprime_iff_gcd_eq_1)
  from fermat_little [OF p this] t show False by (simp add: mpz_powm_def)
qed

lemma is_prime_2: "is_prime 2"
  by (simp add: is_prime_def)

lemma is_prime_3: "is_prime 3"
  by code_simp

lemma is_prime_5: "is_prime 5"
  by code_simp

lemma is_prime_7: "is_prime 7"
  by code_simp

lemmas run_simps =
  fermat_test_gmp_def fermat_loop_step fermat_loop_done generate_random_coprime_step
  mpz_powm_def gcd_non_0_nat const_stream_def

section \<open>Properties of the Fermat test\<close>

text \<open>
  C1. One-sided soundness: when \<^verbatim>\<open>fermat_test_gmp\<close> returns 0 (composite), \<open>n\<close> is not
  prime. Put the other way: for a prime \<open>n\<close> every value the test returns is 1 with the
  witness set to 0, and for a prime \<open>n \<ge> 5\<close> the test does return, whatever the count
  \<open>k\<close> and the state of the generator (the sampler accepts its first draw).
\<close>

theorem fermat_test_one_sided_soundness:
  "(fermat_test_gmp n k state = Some (Inr (0, w, state')) \<longrightarrow> \<not> is_prime n) \<and>
   (is_prime n \<longrightarrow>
      (\<forall>v a s. fermat_test_gmp n k state = Some (Inr (v, a, s)) \<longrightarrow> v = 1 \<and> a = 0) \<and>
      (5 \<le> n \<longrightarrow> (\<exists>s. fermat_test_gmp n k state = Some (Inr (1, 0, s)))))"
proof (intro conjI impI allI)
  assume "fermat_test_gmp n k state = Some (Inr (0, w, state'))"
  then show "\<not> is_prime n"
    unfolding fermat_test_gmp_def by (rule fermat_loop_composite_verdict)
next
  fix v a s
  assume p: "is_prime n" and r: "fermat_test_gmp n k state = Some (Inr (v, a, s))"
  have "v \<noteq> 0"
    using fermat_loop_composite_verdict [of n k 0 state a s] p r
    by (auto simp: fermat_test_gmp_def)
  then show "v = 1" "a = 0"
    using fermat_loop_post [of n k 0 state v a s] r by (auto simp: fermat_test_gmp_def)
next
  assume "is_prime n" "5 \<le> n"
  then show "\<exists>s. fermat_test_gmp n k state = Some (Inr (1, 0, s))"
    unfolding fermat_test_gmp_def by (simp add: fermat_loop_prime)
qed

text \<open>
  The test on 4 with draws 3 returns composite with witness 3, and 4 is not prime; on the
  prime 5 it returns probable prime.
\<close>

theorem fermat_test_one_sided_soundness_witness:
  "fermat_test_gmp 4 16 \<lparr>raw = const_stream 3, pos = 0\<rparr>
     = Some (Inr (0, 3, \<lparr>raw = const_stream 3, pos = 1\<rparr>)) \<and> \<not> is_prime 4 \<and>
   is_prime 5 \<and> 5 \<le> (5::nat) \<and>
   (\<exists>s. fermat_test_gmp 5 16 \<lparr>raw = const_stream 3, pos = 0\<rparr> = Some (Inr (1, 0, s)))"
proof -
  have run: "fermat_test_gmp 4 16 \<lparr>raw = const_stream 3, pos = 0\<rparr>
     = Some (Inr (0, 3, \<lparr>raw = const_stream 3, pos = 1\<rparr>))"
    by (simp add: run_simps)
  show ?thesis
    using run is_prime_5
      fermat_test_one_sided_soundness
        [of 4 16 "\<lparr>raw = const_stream 3, pos = 0\<rparr>" 3 "\<lparr>raw = const_stream 3, pos = 1\<rparr>"]
      fermat_test_one_sided_soundness
        [of 5 16 "\<lparr>raw = const_stream 3, pos = 0\<rparr>" 0 "\<lparr>raw = const_stream 3, pos = 0\<rparr>"]
    by simp
qed

text \<open>
  C5. Witness validity: for a composite \<open>n\<close> (above 1 and not prime) and every state of the
  generator, a counter-witness \<open>a\<close> returned with the verdict 0 satisfies \<open>1 < a < n\<close> and
  \<open>a ^ (n - 1) mod n \<noteq> 1\<close>.
\<close>

theorem fermat_witness_valid:
  assumes "1 < n" "\<not> is_prime n"
    and "fermat_test_gmp n k state = Some (Inr (0, a, state'))"
  shows "1 < a \<and> a < n \<and> a ^ (n - 1) mod n \<noteq> 1"
proof -
  have n3: "3 \<le> n"
    using assms(1,2) is_prime_2 by (cases "n = 2") auto
  from fermat_loop_post [OF assms(3) [unfolded fermat_test_gmp_def]]
  have a2: "2 \<le> a" and rng: "a < n \<or> a \<le> 3 \<and> a < n + 2" and g: "gcd a n = 1"
    and t: "mpz_powm a (n - 1) n \<noteq> 1"
    by simp_all
  have "a \<le> n" using rng n3 by auto
  moreover have "a \<noteq> n" using g n3 by auto
  ultimately have "a < n" by simp
  then show ?thesis using a2 t by (simp add: mpz_powm_def)
qed

text \<open>The run on 4 with draws 3: the witness is 3, and \<open>3 ^ 3 mod 4 = 3\<close>.\<close>

theorem fermat_witness_valid_witness:
  "1 < (4::nat) \<and> \<not> is_prime 4 \<and>
   fermat_test_gmp 4 16 \<lparr>raw = const_stream 3, pos = 0\<rparr>
     = Some (Inr (0, 3, \<lparr>raw = const_stream 3, pos = 1\<rparr>)) \<and>
   1 < (3::nat) \<and> (3::nat) < 4 \<and> (3::nat) ^ (4 - 1) mod 4 \<noteq> 1"
proof -
  have np: "\<not> is_prime 4" by code_simp
  have run: "fermat_test_gmp 4 16 \<lparr>raw = const_stream 3, pos = 0\<rparr>
     = Some (Inr (0, 3, \<lparr>raw = const_stream 3, pos = 1\<rparr>))"
    by (simp add: run_simps)
  have one: "1 < (4::nat)" by simp
  show ?thesis
    using fermat_witness_valid [OF one np run] np run by simp
qed

text \<open>
  C4. The sampler's contract \<open>2 \<le> a \<le> n - 2\<close> (the comment above
  \<^verbatim>\<open>generate_random_coprime\<close> says \<^verbatim>\<open>random a in [2..n-2]\<close>) does not hold: the draw is taken
  in \<open>[0, n - 1]\<close> and only the values below 2 are moved, so \<open>n - 1\<close> is returned
  whenever it is drawn. For \<open>n = 4\<close> the interval \<open>[2, n - 2]\<close> is \<open>{2}\<close>; with the draw
  3 the sampler returns 3. (What does hold is \<open>generate_random_coprime_range\<close> and
  \<open>generate_random_coprime_Inr\<close>: \<open>2 \<le> a \<le> n - 1\<close> for \<open>n \<ge> 3\<close>, and \<open>gcd a n = 1\<close>.)
\<close>

theorem sampler_returns_n_minus_1:
  "generate_random_coprime 4 \<lparr>raw = const_stream 3, pos = 0\<rparr>
     = Some (Inr (3, \<lparr>raw = const_stream 3, pos = 1\<rparr>)) \<and> \<not> (3::nat) \<le> 4 - 2"
  by (simp add: run_simps)

text \<open>
  The program has no special case for \<open>n \<le> 3\<close>. For \<open>n = 3\<close> and \<open>k = 16\<close> the state
  that comes back has made 16 draws: the sampler ran at every trial, on the modulus 3. For
  \<open>n = 2\<close> and a generator whose draws are all even the test never returns a verdict.
\<close>

theorem no_small_candidate_special_case:
  "fermat_test_gmp 3 16 \<lparr>raw = const_stream 2, pos = 0\<rparr>
     = Some (Inr (1, 0, \<lparr>raw = const_stream 2, pos = 16\<rparr>)) \<and>
   fermat_test_gmp 2 16 \<lparr>raw = const_stream 0, pos = 0\<rparr> = None"
proof
  show "fermat_test_gmp 3 16 \<lparr>raw = const_stream 2, pos = 0\<rparr>
     = Some (Inr (1, 0, \<lparr>raw = const_stream 2, pos = 16\<rparr>))"
    by (simp add: run_simps)
  have "generate_random_coprime 2 \<lparr>raw = const_stream 0, pos = 0\<rparr> = None"
  proof (cases "generate_random_coprime 2 \<lparr>raw = const_stream 0, pos = 0\<rparr>")
    case None
    then show ?thesis .
  next
    case (Some y)
    from generate_random_coprime_even_forever [OF this] show ?thesis
      by (simp add: const_stream_def)
  qed
  then show "fermat_test_gmp 2 16 \<lparr>raw = const_stream 0, pos = 0\<rparr> = None"
    by (simp add: fermat_test_gmp_def fermat_loop_step)
qed

text \<open>
  C3, as the program has it. For \<open>k \<ge> 1\<close> the candidates up to 3 go through the ordinary
  trial loop. The candidate 1 is reported composite with witness 2 after one draw. For 2 and
  3, whenever the test returns, the verdict is probable prime and the generator has made at
  least \<open>k\<close> draws, all for a modulus below 4. For the candidate 0 (never scanned by
  \<^verbatim>\<open>main\<close>) GMP divides by zero.
\<close>

theorem small_candidates_use_sampler:
  assumes "0 < k"
  shows "fermat_test_gmp 0 k state = Some (Inl Divide_by_zero) \<and>
         fermat_test_gmp 1 k state = Some (Inr (0, 2, state\<lparr>pos := pos state + 1\<rparr>)) \<and>
         (\<forall>n v w state'. (n = 2 \<or> n = 3) \<longrightarrow>
            fermat_test_gmp n k state = Some (Inr (v, w, state')) \<longrightarrow>
            v = 1 \<and> w = 0 \<and> pos state + nat k \<le> pos state')"
proof (intro conjI allI impI)
  show "fermat_test_gmp 0 k state = Some (Inl Divide_by_zero)"
    using assms by (simp add: fermat_test_gmp_def fermat_loop_step generate_random_coprime_step)
  show "fermat_test_gmp 1 k state = Some (Inr (0, 2, state\<lparr>pos := pos state + 1\<rparr>))"
    using assms
    by (simp add: fermat_test_gmp_def fermat_loop_step generate_random_coprime_step mpz_powm_def)
next
  fix n v w state'
  assume n: "n = 2 \<or> n = 3"
    and r: "fermat_test_gmp n k state = Some (Inr (v, w, state'))"
  have p: "is_prime n" using n is_prime_2 is_prime_3 by auto
  have "v \<noteq> 0"
    using fermat_loop_composite_verdict [of n k 0 state w state'] p r
    by (auto simp: fermat_test_gmp_def)
  then show "v = 1" "w = 0" "pos state + nat k \<le> pos state'"
    using fermat_loop_post [of n k 0 state v w state'] r by (auto simp: fermat_test_gmp_def)
qed

text \<open>With \<open>k = 16\<close> and all raw numbers 2: the runs on 1 and on 3.\<close>

theorem small_candidates_use_sampler_witness:
  "(0::int) < 16 \<and>
   fermat_test_gmp 1 16 \<lparr>raw = const_stream 2, pos = 0\<rparr>
     = Some (Inr (0, 2, \<lparr>raw = const_stream 2, pos = 1\<rparr>)) \<and>
   fermat_test_gmp 3 16 \<lparr>raw = const_stream 2, pos = 0\<rparr>
     = Some (Inr (1, 0, \<lparr>raw = const_stream 2, pos = 16\<rparr>)) \<and>
   pos \<lparr>raw = const_stream 2, pos = 0\<rparr> + nat 16 \<le> pos \<lparr>raw = const_stream 2, pos = 16\<rparr>"
proof -
  have k: "(0::int) < 16" by simp
  have run: "fermat_test_gmp 3 16 \<lparr>raw = const_stream 2, pos = 0\<rparr>
     = Some (Inr (1, 0, \<lparr>raw = const_stream 2, pos = 16\<rparr>))"
    by (simp add: run_simps)
  show ?thesis
    using small_candidates_use_sampler [OF k, of "\<lparr>raw = const_stream 2, pos = 0\<rparr>"] run
    by simp
qed

section \<open>Properties of the Carmichael list\<close>

text \<open>
  C9. When the file of Carmichael numbers cannot be opened, \<^verbatim>\<open>load_carmichael\<close> ends the
  process (\<^verbatim>\<open>exit(1)\<close>) without producing a list, and \<^verbatim>\<open>main\<close> ends with that fault
  before the output file is opened or any candidate classified, whatever the state of the
  generator.
\<close>

theorem unopenable_source_aborts:
  "load_carmichael None max_val = Inl Exit_fopen_carmichael \<and>
   main None results_writable state = Some (Inl Exit_fopen_carmichael)"
  by (simp add: load_carmichael_def main_def)

text \<open>
  C10. \<^verbatim>\<open>is_carmichael\<close> is total and safe: for every \<open>n\<close> and every list of fewer than
  \<open>2 ^ 63\<close> entries (a list of 8-byte entries in a 64-bit address space has fewer than
  \<open>2 ^ 61\<close>) the bisection ends and no read is outside the list (the result is
  \<open>Some (Inr b)\<close>, neither \<open>None\<close> nor the fault \<open>Index_out_of_bounds\<close>); the last read,
  at \<open>lo\<close>, is guarded by \<open>lo < carmichael_count\<close>. On the empty list the answer is false.
\<close>

theorem is_carmichael_total_safe:
  assumes "length carmichael_list < 2 ^ 63"
  shows "(\<exists>b. is_carmichael carmichael_list n = Some (Inr b)) \<and>
         (carmichael_list = [] \<longrightarrow> is_carmichael carmichael_list n = Some (Inr False))"
proof
  show "\<exists>b. is_carmichael carmichael_list n = Some (Inr b)"
    using assms by (rule is_carmichael_returns)
  show "carmichael_list = [] \<longrightarrow> is_carmichael carmichael_list n = Some (Inr False)"
    using is_carmichael_absent [of n "[]"] by simp
qed

text \<open>The empty list, and a list of three Carmichael numbers.\<close>

theorem is_carmichael_total_safe_witness:
  "length ([] :: nat list) < 2 ^ 63 \<and> is_carmichael [] 561 = Some (Inr False) \<and>
   length [561, 1105, 1729 :: nat] < 2 ^ 63 \<and>
   (\<exists>b. is_carmichael [561, 1105, 1729] 1105 = Some (Inr b))"
proof -
  have a: "length ([] :: nat list) < 2 ^ 63" by simp
  have b: "length [561, 1105, 1729 :: nat] < 2 ^ 63" by simp
  show ?thesis
    using is_carmichael_total_safe [OF a, of 561] is_carmichael_total_safe [OF b, of 1105] a b
    by simp
qed

lemma takeWhile_le_sorted:
  "sorted f \<Longrightarrow> takeWhile (\<lambda>x. x \<le> m) f = filter (\<lambda>x. x \<le> (m::nat)) f"
proof (induction f)
  case Nil
  then show ?case by simp
next
  case (Cons x xs)
  show ?case
  proof (cases "x \<le> m")
    case True
    then show ?thesis using Cons by simp
  next
    case False
    then have "\<forall>y \<in> set xs. \<not> y \<le> m" using Cons.prems by auto
    then have "filter (\<lambda>x. x \<le> m) xs = []" by (simp add: filter_empty_conv)
    then show ?thesis using False by simp
  qed
qed

text \<open>
  C6. Oracle correctness: for a strictly ascending file (of fewer than \<open>2 ^ 63\<close> numbers)
  \<^verbatim>\<open>load_carmichael\<close> keeps exactly the longest prefix of values up to \<open>max_val\<close>, and
  \<^verbatim>\<open>is_carmichael\<close> on the loaded list answers whether \<open>n\<close> occurs in it. Hence a value
  of the file up to \<open>max_val\<close> is found, and a value of the file above \<open>max_val\<close> is not.
\<close>

theorem oracle_correct:
  assumes "sorted_wrt (<) f" "length f < 2 ^ 63"
  shows "\<exists>cl. load_carmichael (Some f) max_val = Inr cl \<and>
           cl = takeWhile (\<lambda>x. x \<le> max_val) f \<and>
           is_carmichael cl n = Some (Inr (n \<in> set cl)) \<and>
           (n \<in> set f \<and> n \<le> max_val \<longrightarrow> is_carmichael cl n = Some (Inr True)) \<and>
           (n \<in> set f \<and> max_val < n \<longrightarrow> is_carmichael cl n = Some (Inr False))"
proof -
  let ?cl = "takeWhile (\<lambda>x. x \<le> max_val) f"
  have srt: "sorted f" using assms(1) by (rule strict_sorted_imp_sorted)
  have load: "load_carmichael (Some f) max_val = Inr ?cl"
    by (simp add: load_carmichael_def load_loop_takeWhile)
  have "sorted ?cl" using srt by (rule sorted_takeWhile)
  moreover have "length ?cl < 2 ^ 63"
    using length_takeWhile_le [of "\<lambda>x. x \<le> max_val" f] assms(2) by simp
  ultimately have mem: "is_carmichael ?cl n = Some (Inr (n \<in> set ?cl))"
    by (rule is_carmichael_member)
  have set: "set ?cl = {x \<in> set f. x \<le> max_val}"
    using takeWhile_le_sorted [OF srt, of max_val] by simp
  show ?thesis using load mem set by auto
qed

text \<open>Four Carmichael numbers and the bound 2000: 1105 is found, 2465 is not.\<close>

theorem oracle_correct_witness:
  "sorted_wrt (<) [561, 1105, 1729, 2465 :: nat] \<and> length [561, 1105, 1729, 2465 :: nat] < 2 ^ 63 \<and>
   load_carmichael (Some [561, 1105, 1729, 2465]) 2000 = Inr [561, 1105, 1729] \<and>
   is_carmichael [561, 1105, 1729] 1105 = Some (Inr True) \<and>
   is_carmichael [561, 1105, 1729] 2465 = Some (Inr False)"
proof -
  have a: "sorted_wrt (<) [561, 1105, 1729, 2465 :: nat]" by simp
  have b: "length [561, 1105, 1729, 2465 :: nat] < 2 ^ 63" by simp
  show ?thesis
    using oracle_correct [OF a b, of 2000 1105] oracle_correct [OF a b, of 2000 2465] a b
    by simp
qed

section \<open>Properties of the rows of the scan\<close>

lemma fermat_test_gmp_verdict:
  assumes "fermat_test_gmp x k state = Some (Inr (v, w, state'))"
  shows "v = 0 \<or> v = 1"
  using fermat_loop_post [OF assms [unfolded fermat_test_gmp_def]] by auto

lemma scan_body_composite:
  assumes "fermat_test_gmp x k state = Some (Inr (0, w, state'))"
  shows "scan_body x k cl state =
           Some (Inr (\<lparr>row_n = x, row_bit_len = (if x = 0 then 1 else 64 - clzll x),
                       row_is_probably_prime = 0, row_witness = Some w,
                       row_is_really_prime = 0\<rparr>, state'))"
  using assms by (simp add: scan_body_def)

lemma scan_body_probable:
  assumes "fermat_test_gmp x k state = Some (Inr (v, w, state'))" "v \<noteq> 0"
    and "is_carmichael cl x = Some (Inr c)"
  shows "scan_body x k cl state =
           Some (Inr (\<lparr>row_n = x, row_bit_len = (if x = 0 then 1 else 64 - clzll x),
                       row_is_probably_prime = 1, row_witness = None,
                       row_is_really_prime = (if c then 0 else 1)\<rparr>, state'))"
  using assms by (simp add: scan_body_def)

lemma scan_body_Inr:
  assumes "scan_body x k cl state = Some (Inr (r, state'))"
  obtains v w where "fermat_test_gmp x k state = Some (Inr (v, w, state'))"
  using assms
  by (auto simp: scan_body_def Let_def split: option.splits sum.splits if_splits)

lemma scan_body_row_n:
  assumes "scan_body x k cl state = Some (Inr (r, state'))"
  shows "row_n r = x"
  using assms
  by (auto simp: scan_body_def Let_def split: option.splits sum.splits if_splits)

text \<open>
  C2. Ground truth: in the row written for the candidate \<open>x\<close>, with a sorted list of
  Carmichael numbers, the last column equals (probable prime and \<open>x\<close> not in the list), as
  0 or 1. When the Fermat column is 0 the last column is 0 and the list is not consulted:
  the same row is written for every list \<open>cl\<close> whatsoever, also for one on which the
  search would not return.
\<close>

theorem ground_truth_refinement:
  assumes "sorted carmichael_list" "length carmichael_list < 2 ^ 63"
    and "scan_body x k carmichael_list state = Some (Inr (r, state'))"
  shows "row_is_really_prime r =
           (if row_is_probably_prime r \<noteq> 0 \<and> x \<notin> set carmichael_list then 1 else 0) \<and>
         (row_is_probably_prime r = 0 \<or> row_is_probably_prime r = 1) \<and>
         (row_is_probably_prime r = 0 \<longrightarrow>
            row_is_really_prime r = 0 \<and>
            (\<forall>cl. scan_body x k cl state = Some (Inr (r, state'))))"
proof -
  obtain v w where t: "fermat_test_gmp x k state = Some (Inr (v, w, state'))"
    using assms(3) by (rule scan_body_Inr)
  have mem: "is_carmichael carmichael_list x = Some (Inr (x \<in> set carmichael_list))"
    using assms(1,2) by (rule is_carmichael_member)
  show ?thesis
  proof (cases "v = 0")
    case True
    let ?r = "\<lparr>row_n = x, row_bit_len = (if x = 0 then 1 else 64 - clzll x),
                row_is_probably_prime = 0, row_witness = Some w, row_is_really_prime = 0\<rparr>"
    have every: "\<And>cl. scan_body x k cl state = Some (Inr (?r, state'))"
      using t True by (simp add: scan_body_composite)
    have r: "r = ?r" using every [of carmichael_list] assms(3) by simp
    show ?thesis unfolding r using every by simp
  next
    case False
    let ?r = "\<lparr>row_n = x, row_bit_len = (if x = 0 then 1 else 64 - clzll x),
                row_is_probably_prime = 1, row_witness = None,
                row_is_really_prime = (if x \<in> set carmichael_list then 0 else 1)\<rparr>"
    have r: "r = ?r" using scan_body_probable [OF t False mem] assms(3) by simp
    show ?thesis unfolding r by simp
  qed
qed

text \<open>
  The Carmichael number 561 with two trials on base 2 (a probable prime, found in the list),
  and the candidate 4 with base 3 (composite, whatever the list).
\<close>

theorem ground_truth_refinement_witness:
  "sorted [561, 1105 :: nat] \<and> length [561, 1105 :: nat] < 2 ^ 63 \<and>
   scan_body 561 2 [561, 1105] \<lparr>raw = const_stream 2, pos = 0\<rparr>
     = Some (Inr (\<lparr>row_n = 561, row_bit_len = 10, row_is_probably_prime = 1,
                   row_witness = None, row_is_really_prime = 0\<rparr>,
                  \<lparr>raw = const_stream 2, pos = 2\<rparr>)) \<and>
   scan_body 4 2 [561, 1105] \<lparr>raw = const_stream 3, pos = 0\<rparr>
     = Some (Inr (\<lparr>row_n = 4, row_bit_len = 3, row_is_probably_prime = 0,
                   row_witness = Some 3, row_is_really_prime = 0\<rparr>,
                  \<lparr>raw = const_stream 3, pos = 1\<rparr>)) \<and>
   (\<forall>cl. scan_body 4 2 cl \<lparr>raw = const_stream 3, pos = 0\<rparr>
     = Some (Inr (\<lparr>row_n = 4, row_bit_len = 3, row_is_probably_prime = 0,
                   row_witness = Some 3, row_is_really_prime = 0\<rparr>,
                  \<lparr>raw = const_stream 3, pos = 1\<rparr>)))"
proof -
  have a: "sorted [561, 1105 :: nat]" by simp
  have b: "length [561, 1105 :: nat] < 2 ^ 63" by simp
  have t1: "fermat_test_gmp 561 2 \<lparr>raw = const_stream 2, pos = 0\<rparr>
      = Some (Inr (1, 0, \<lparr>raw = const_stream 2, pos = 2\<rparr>))"
    by (simp add: run_simps)
  have c1: "is_carmichael [561, 1105] 561 = Some (Inr True)"
    using is_carmichael_member [OF a b, of 561] by simp
  have bl1: "bits 561 = 10" by simp
  have r1: "scan_body 561 2 [561, 1105] \<lparr>raw = const_stream 2, pos = 0\<rparr>
     = Some (Inr (\<lparr>row_n = 561, row_bit_len = 10, row_is_probably_prime = 1,
                   row_witness = None, row_is_really_prime = 0\<rparr>,
                  \<lparr>raw = const_stream 2, pos = 2\<rparr>))"
    using scan_body_probable [OF t1 _ c1] bl1 by (simp add: clzll_def)
  have t2: "fermat_test_gmp 4 2 \<lparr>raw = const_stream 3, pos = 0\<rparr>
      = Some (Inr (0, 3, \<lparr>raw = const_stream 3, pos = 1\<rparr>))"
    by (simp add: run_simps)
  have bl2: "bits 4 = 3" by simp
  have r2: "scan_body 4 2 [561, 1105] \<lparr>raw = const_stream 3, pos = 0\<rparr>
     = Some (Inr (\<lparr>row_n = 4, row_bit_len = 3, row_is_probably_prime = 0,
                   row_witness = Some 3, row_is_really_prime = 0\<rparr>,
                  \<lparr>raw = const_stream 3, pos = 1\<rparr>))"
    using scan_body_composite [OF t2, of "[561, 1105]"] bl2 by (simp add: clzll_def)
  show ?thesis
    using ground_truth_refinement [OF a b r1] ground_truth_refinement [OF a b r2] a b r1 r2
    by simp
qed

section \<open>The scan loops\<close>

lemma classify_list_append:
  "classify_list (xs @ ys) k cl state out =
     (case classify_list xs k cl state out of
        None \<Rightarrow> None
      | Some (Inl e) \<Rightarrow> Some (Inl e)
      | Some (Inr (out', state')) \<Rightarrow> classify_list ys k cl state' out')"
proof (induction xs arbitrary: state out)
  case Nil
  show ?case by simp
next
  case (Cons x xs)
  show ?case
  proof (cases "scan_body x k cl state")
    case None
    then show ?thesis by simp
  next
    case (Some y)
    show ?thesis
    proof (cases y)
      case (Inl e)
      then show ?thesis using Some by simp
    next
      case (Inr p)
      obtain r s1 where p: "p = (r, s1)" by (cases p)
      show ?thesis using Some Inr p by (simp add: Cons.IH)
    qed
  qed
qed

lemma classify_list_rows:
  assumes "classify_list xs k cl state out = Some (Inr (out', state'))"
  shows "\<exists>new. out' = out @ new \<and> map row_n new = xs \<and>
           (\<forall>r \<in> set new. \<exists>s0 s1. scan_body (row_n r) k cl s0 = Some (Inr (r, s1)))"
  using assms
proof (induction xs arbitrary: state out)
  case Nil
  then show ?case by simp
next
  case (Cons x xs)
  obtain r s1 where
    b: "scan_body x k cl state = Some (Inr (r, s1))"
    and rest: "classify_list xs k cl s1 (out @ [r]) = Some (Inr (out', state'))"
  proof (cases "scan_body x k cl state")
    case None
    then show ?thesis using Cons.prems by simp
  next
    case (Some y)
    show ?thesis
    proof (cases y)
      case (Inl e)
      then show ?thesis using Some Cons.prems by simp
    next
      case (Inr p)
      obtain r s1 where p: "p = (r, s1)" by (cases p)
      show ?thesis using Some Inr p Cons.prems that by simp
    qed
  qed
  from Cons.IH [OF rest] obtain new where
    new: "out' = (out @ [r]) @ new" "map row_n new = xs"
      "\<forall>r \<in> set new. \<exists>s0 s1. scan_body (row_n r) k cl s0 = Some (Inr (r, s1))"
    by blast
  have rn: "row_n r = x" using b by (rule scan_body_row_n)
  show ?case
  proof (intro exI [of _ "r # new"] conjI)
    show "out' = out @ r # new" using new(1) by simp
    show "map row_n (r # new) = x # xs" using new(2) rn by simp
    show "\<forall>q \<in> set (r # new). \<exists>s0 s1. scan_body (row_n q) k cl s0 = Some (Inr (q, s1))"
    proof
      fix q
      assume "q \<in> set (r # new)"
      then consider "q = r" | "q \<in> set new" by auto
      then show "\<exists>s0 s1. scan_body (row_n q) k cl s0 = Some (Inr (q, s1))"
      proof cases
        case 1
        have "scan_body (row_n q) k cl state = Some (Inr (q, s1))"
          unfolding 1 rn by (rule b)
        then show ?thesis by blast
      next
        case 2
        then show ?thesis using new(3) by blast
      qed
    qed
  qed
qed

lemma inner_loop_classify:
  assumes "end_x < 2 ^ 64 - 1"
  shows "inner_loop x end_x k cl state out = classify_list [x..<Suc end_x] k cl state out"
proof (induction "Suc end_x - x" arbitrary: x state out rule: less_induct)
  case less
  show ?case
  proof (cases "x \<le> end_x")
    case False
    then have "[x..<Suc end_x] = []" by (simp del: upt_Suc)
    then show ?thesis using False by (subst inner_loop.simps) simp
  next
    case True
    have nowrap: "(x + 1) mod 2 ^ 64 = Suc x"
      using True assms by simp
    have up: "[x..<Suc end_x] = x # [Suc x..<Suc end_x]"
      using True by (simp add: upt_conv_Cons del: upt_Suc)
    have IH: "\<And>state out. inner_loop (Suc x) end_x k cl state out
        = classify_list [Suc x..<Suc end_x] k cl state out"
      using True by (intro less.hyps) simp
    have "inner_loop x end_x k cl state out =
        (case scan_body x k cl state of
           None \<Rightarrow> None
         | Some (Inl e) \<Rightarrow> Some (Inl e)
         | Some (Inr (r, state')) \<Rightarrow> inner_loop (Suc x) end_x k cl state' (out @ [r]))"
      by (subst inner_loop.simps) (simp only: True if_True nowrap)
    also have "\<dots> = classify_list (x # [Suc x..<Suc end_x]) k cl state out"
      by (simp only: IH classify_list.simps)
    finally show ?thesis unfolding up .
  qed
qed

lemma outer_loop_done:
  "\<not> start \<le> MAX_VAL \<Longrightarrow> outer_loop start MAX_VAL CHUNK k cl state out = Some (Inr (out, state))"
  by (subst outer_loop.simps) simp

lemma outer_loop_step:
  assumes "start \<le> MAX_VAL" "0 < CHUNK" "MAX_VAL + CHUNK < 2 ^ 64"
  shows "outer_loop start MAX_VAL CHUNK k cl state out =
     (case inner_loop start (min (start + CHUNK - 1) MAX_VAL) k cl state out of
        None \<Rightarrow> None
      | Some (Inl e) \<Rightarrow> Some (Inl e)
      | Some (Inr (out', state')) \<Rightarrow> outer_loop (start + CHUNK) MAX_VAL CHUNK k cl state' out')"
proof -
  have lt: "start + CHUNK - 1 < (2::nat) ^ 64" using assms by simp
  have "start + CHUNK + (2 ^ 64 - 1) = (start + CHUNK - 1) + 1 * 2 ^ 64"
    using assms(2) by simp
  then have "(start + CHUNK + (2 ^ 64 - 1)) mod 2 ^ 64 = (start + CHUNK - 1) mod 2 ^ 64"
    by (simp only: mod_mult_self1)
  then have e0: "(start + CHUNK + (2 ^ 64 - 1)) mod 2 ^ 64 = start + CHUNK - 1"
    using lt by simp
  have nx: "(start + CHUNK) mod 2 ^ 64 = start + CHUNK"
    using assms by simp
  have mn: "(if start + CHUNK - 1 > MAX_VAL then MAX_VAL else start + CHUNK - 1)
      = min (start + CHUNK - 1) MAX_VAL"
    by (simp add: min_def)
  show ?thesis
    by (subst outer_loop.simps) (simp only: assms(1) if_True Let_def e0 nx mn)
qed

lemma outer_loop_classify:
  assumes "0 < CHUNK" "MAX_VAL + CHUNK < 2 ^ 64"
  shows "outer_loop start MAX_VAL CHUNK k cl state out
           = classify_list [start..<Suc MAX_VAL] k cl state out"
proof (induction "Suc MAX_VAL - start" arbitrary: start state out rule: less_induct)
  case less
  show ?case
  proof (cases "start \<le> MAX_VAL")
    case False
    then have "[start..<Suc MAX_VAL] = []" by (simp del: upt_Suc)
    then show ?thesis using False by (simp add: outer_loop_done)
  next
    case True
    let ?e = "min (start + CHUNK - 1) MAX_VAL"
    have e: "?e < 2 ^ 64 - 1" using assms by simp
    have inner: "\<And>state out. inner_loop start ?e k cl state out
        = classify_list [start..<Suc ?e] k cl state out"
      using e by (rule inner_loop_classify)
    show ?thesis
    proof (cases "start + CHUNK - 1 \<ge> MAX_VAL")
      case last: True
      then have em: "?e = MAX_VAL" by simp
      have "\<not> start + CHUNK \<le> MAX_VAL" using last assms(1) by simp
      then have stop: "\<And>state out. outer_loop (start + CHUNK) MAX_VAL CHUNK k cl state out
          = Some (Inr (out, state))"
        by (simp add: outer_loop_done)
      have "outer_loop start MAX_VAL CHUNK k cl state out =
          (case classify_list [start..<Suc MAX_VAL] k cl state out of
             None \<Rightarrow> None
           | Some (Inl e) \<Rightarrow> Some (Inl e)
           | Some (Inr (out', state')) \<Rightarrow> Some (Inr (out', state')))"
        by (simp only: outer_loop_step [OF True assms] inner [unfolded em] em stop)
      also have "\<dots> = classify_list [start..<Suc MAX_VAL] k cl state out"
        by (simp del: upt_Suc split: option.splits sum.splits)
      finally show ?thesis .
    next
      case more: False
      then have em: "Suc ?e = start + CHUNK" using assms(1) by simp
      have le: "start + CHUNK \<le> MAX_VAL" using more by simp
      have IH: "\<And>state out. outer_loop (start + CHUNK) MAX_VAL CHUNK k cl state out
          = classify_list [start + CHUNK..<Suc MAX_VAL] k cl state out"
        using True assms(1) by (intro less.hyps) simp
      have "start + CHUNK + (Suc MAX_VAL - (start + CHUNK)) = Suc MAX_VAL"
        using le by simp
      then have split: "[start..<Suc MAX_VAL] = [start..<start + CHUNK] @ [start + CHUNK..<Suc MAX_VAL]"
        using upt_add_eq_append [of start "start + CHUNK" "Suc MAX_VAL - (start + CHUNK)"]
        by (simp del: upt_Suc)
      have "outer_loop start MAX_VAL CHUNK k cl state out =
          (case classify_list [start..<start + CHUNK] k cl state out of
             None \<Rightarrow> None
           | Some (Inl e) \<Rightarrow> Some (Inl e)
           | Some (Inr (out', state')) \<Rightarrow>
               classify_list [start + CHUNK..<Suc MAX_VAL] k cl state' out')"
        by (simp only: outer_loop_step [OF True assms] inner em IH)
      also have "\<dots> = classify_list [start..<Suc MAX_VAL] k cl state out"
        by (simp only: split classify_list_append)
      finally show ?thesis .
    qed
  qed
qed

text \<open>
  C7, as the program has it. For \<open>low \<le> high\<close>, a positive \<open>CHUNK\<close> and
  \<open>high + CHUNK < 2 ^ 64\<close> (the 64-bit counters \<^verbatim>\<open>start\<close>, \<^verbatim>\<open>end\<close> and \<^verbatim>\<open>x\<close> do not
  wrap; in the program the sum is \<open>2 ^ 32 - 1 + 1000000\<close>) the chunked scan is the scan
  without chunks: the same rows and final generator state, the same fault, or neither
  returns. When it returns, it has written exactly one row per integer of \<open>[low, high]\<close>,
  in increasing order.
\<close>

theorem chunking_neutral:
  assumes "low \<le> high" "0 < CHUNK" "high + CHUNK < 2 ^ 64"
  shows "scan low high CHUNK k cl state = unchunked_scan low high k cl state \<and>
         (\<forall>rows state'. scan low high CHUNK k cl state = Some (Inr (rows, state')) \<longrightarrow>
            map row_n rows = [low..<Suc high] \<and> length rows = Suc high - low)"
proof
  show eq: "scan low high CHUNK k cl state = unchunked_scan low high k cl state"
    unfolding scan_def unchunked_scan_def using assms(2,3) by (rule outer_loop_classify)
  show "\<forall>rows state'. scan low high CHUNK k cl state = Some (Inr (rows, state')) \<longrightarrow>
            map row_n rows = [low..<Suc high] \<and> length rows = Suc high - low"
  proof (intro allI impI)
    fix rows state'
    assume "scan low high CHUNK k cl state = Some (Inr (rows, state'))"
    then have "classify_list [low..<Suc high] k cl state [] = Some (Inr (rows, state'))"
      using eq by (simp add: unchunked_scan_def)
    from classify_list_rows [OF this]
    have m: "map row_n rows = [low..<Suc high]" by (auto simp del: upt_Suc)
    have "length rows = length (map row_n rows)" by simp
    also have "\<dots> = length [low..<Suc high]" by (simp only: m)
    also have "\<dots> = Suc high - low" by (simp only: length_upt)
    finally show "map row_n rows = [low..<Suc high] \<and> length rows = Suc high - low"
      using m by (simp del: upt_Suc)
  qed
qed

lemmas scan_simps =
  scan_def unchunked_scan_def outer_loop.simps inner_loop.simps scan_body_def
  is_carmichael_def bsearch_loop.simps clzll_def flags_def numeral_3_eq_3 [symmetric]
  numeral_2_eq_2 [symmetric]

text \<open>The range \<open>[1, 4]\<close> in chunks of 3, two trials, all raw numbers 17.\<close>

theorem chunking_neutral_witness:
  "(1::nat) \<le> 4 \<and> (0::nat) < 3 \<and> (4::nat) + 3 < 2 ^ 64 \<and>
   scan 1 4 3 2 [561] \<lparr>raw = const_stream 17, pos = 0\<rparr>
     = unchunked_scan 1 4 2 [561] \<lparr>raw = const_stream 17, pos = 0\<rparr> \<and>
   scan 1 4 3 2 [561] \<lparr>raw = const_stream 17, pos = 0\<rparr>
     = Some (Inr ([\<lparr>row_n = 1, row_bit_len = 1, row_is_probably_prime = 0,
                      row_witness = Some 2, row_is_really_prime = 0\<rparr>,
                   \<lparr>row_n = 2, row_bit_len = 2, row_is_probably_prime = 1,
                      row_witness = None, row_is_really_prime = 1\<rparr>,
                   \<lparr>row_n = 3, row_bit_len = 2, row_is_probably_prime = 1,
                      row_witness = None, row_is_really_prime = 1\<rparr>,
                   \<lparr>row_n = 4, row_bit_len = 3, row_is_probably_prime = 0,
                      row_witness = Some 3, row_is_really_prime = 0\<rparr>],
                  \<lparr>raw = const_stream 17, pos = 6\<rparr>)) \<and>
   map row_n [\<lparr>row_n = 1, row_bit_len = 1, row_is_probably_prime = 0,
                      row_witness = Some 2, row_is_really_prime = 0\<rparr>,
                   \<lparr>row_n = 2, row_bit_len = 2, row_is_probably_prime = 1,
                      row_witness = None, row_is_really_prime = 1\<rparr>,
                   \<lparr>row_n = 3, row_bit_len = 2, row_is_probably_prime = 1,
                      row_witness = None, row_is_really_prime = 1\<rparr>,
                   \<lparr>row_n = 4, row_bit_len = 3, row_is_probably_prime = 0,
                      row_witness = Some 3, row_is_really_prime = 0\<rparr>] = [1..<Suc 4]"
proof -
  have a: "(1::nat) \<le> 4" and b: "(0::nat) < 3" and c: "(4::nat) + 3 < 2 ^ 64" by simp_all
  have run: "scan 1 4 3 2 [561] \<lparr>raw = const_stream 17, pos = 0\<rparr>
     = Some (Inr ([\<lparr>row_n = 1, row_bit_len = 1, row_is_probably_prime = 0,
                      row_witness = Some 2, row_is_really_prime = 0\<rparr>,
                   \<lparr>row_n = 2, row_bit_len = 2, row_is_probably_prime = 1,
                      row_witness = None, row_is_really_prime = 1\<rparr>,
                   \<lparr>row_n = 3, row_bit_len = 2, row_is_probably_prime = 1,
                      row_witness = None, row_is_really_prime = 1\<rparr>,
                   \<lparr>row_n = 4, row_bit_len = 3, row_is_probably_prime = 0,
                      row_witness = Some 3, row_is_really_prime = 0\<rparr>],
                  \<lparr>raw = const_stream 17, pos = 6\<rparr>))"
    by (simp add: scan_simps run_simps)
  note t = chunking_neutral [OF a b c, of 2 "[561]" "\<lparr>raw = const_stream 17, pos = 0\<rparr>"]
  have eq: "scan 1 4 3 2 [561] \<lparr>raw = const_stream 17, pos = 0\<rparr>
     = unchunked_scan 1 4 2 [561] \<lparr>raw = const_stream 17, pos = 0\<rparr>"
    using t by (rule conjunct1)
  have m: "map row_n [\<lparr>row_n = 1, row_bit_len = 1, row_is_probably_prime = 0,
                      row_witness = Some 2, row_is_really_prime = 0\<rparr>,
                   \<lparr>row_n = 2, row_bit_len = 2, row_is_probably_prime = 1,
                      row_witness = None, row_is_really_prime = 1\<rparr>,
                   \<lparr>row_n = 3, row_bit_len = 2, row_is_probably_prime = 1,
                      row_witness = None, row_is_really_prime = 1\<rparr>,
                   \<lparr>row_n = 4, row_bit_len = 3, row_is_probably_prime = 0,
                      row_witness = Some 3, row_is_really_prime = 0\<rparr>] = [1..<Suc 4]"
    using t run by blast
  show ?thesis using a b c eq run m by blast
qed

text \<open>
  Without the bound on \<open>high + CHUNK\<close> the claim fails. With \<open>MAX_VAL = 4\<close> and
  \<open>CHUNK = 2 ^ 64 - 1\<close> the first chunk covers \<open>[1, 4]\<close>, then \<^verbatim>\<open>start += CHUNK\<close> wraps to
  0 and a second chunk \<open>[0, 4]\<close> is scanned: with \<open>k = 2\<close> the candidate 0 makes GMP divide
  by zero, where the scan without chunks writes four rows; with \<open>k = 0\<close> nine rows are
  written, for the candidates 1, 2, 3, 4, 0, 1, 2, 3, 4.
\<close>

theorem chunking_wraps:
  "scan 1 4 (2 ^ 64 - 1) 2 [] \<lparr>raw = const_stream 17, pos = 0\<rparr> = Some (Inl Divide_by_zero) \<and>
   flags (unchunked_scan 1 4 2 [] \<lparr>raw = const_stream 17, pos = 0\<rparr>)
     = Some (Inr [(1, 0), (2, 1), (3, 1), (4, 0)]) \<and>
   flags (scan 1 4 (2 ^ 64 - 1) 0 [] \<lparr>raw = const_stream 17, pos = 0\<rparr>)
     = Some (Inr [(1, 1), (2, 1), (3, 1), (4, 1), (0, 1), (1, 1), (2, 1), (3, 1), (4, 1)])"
  by (simp add: scan_simps run_simps upt_conv_Cons del: upt_Suc)

section \<open>The scan of 1 to 10\<close>

lemma fermat_loop_first_pass:
  assumes "fermat_loop n k i state = Some (Inr (v, w, state'))" "i < k" "v \<noteq> 0"
  shows "\<exists>a. 2 \<le> a \<and> (a < n \<or> a \<le> 3 \<and> a < n + 2) \<and> gcd a n = 1 \<and> a ^ (n - 1) mod n = 1"
proof (cases "generate_random_coprime n state")
  case None
  then show ?thesis using assms by (simp add: fermat_loop_step)
next
  case (Some y)
  show ?thesis
  proof (cases y)
    case (Inl e)
    then show ?thesis using assms Some by (simp add: fermat_loop_step)
  next
    case (Inr p)
    obtain a s1 where p: "p = (a, s1)" by (cases p)
    note g = generate_random_coprime_Inr [OF Some [unfolded Inr p]]
    have "mpz_powm a (n - 1) n = 1"
      using assms Some Inr p by (simp add: fermat_loop_step split: if_splits)
    then show ?thesis using g by (auto simp: mpz_powm_def)
  qed
qed

lemma no_liar_1:
  "\<not> (2 \<le> a \<and> (a < 1 \<or> a \<le> 3 \<and> a < 1 + 2) \<and> gcd a 1 = 1 \<and> a ^ (1 - 1) mod 1 = (1::nat))"
  by simp

lemma no_liar_4:
  "\<not> (2 \<le> a \<and> (a < 4 \<or> a \<le> 3 \<and> a < 4 + 2) \<and> gcd a 4 = 1 \<and> a ^ (4 - 1) mod 4 = (1::nat))"
proof
  assume h: "2 \<le> a \<and> (a < 4 \<or> a \<le> 3 \<and> a < 4 + 2) \<and> gcd a 4 = 1 \<and> a ^ (4 - 1) mod 4 = (1::nat)"
  then have "a = 2 \<or> a = 3" by linarith
  then show False using h by (elim disjE) (simp_all add: gcd_non_0_nat)
qed

lemma no_liar_6:
  "\<not> (2 \<le> a \<and> (a < 6 \<or> a \<le> 3 \<and> a < 6 + 2) \<and> gcd a 6 = 1 \<and> a ^ (6 - 1) mod 6 = (1::nat))"
proof
  assume h: "2 \<le> a \<and> (a < 6 \<or> a \<le> 3 \<and> a < 6 + 2) \<and> gcd a 6 = 1 \<and> a ^ (6 - 1) mod 6 = (1::nat)"
  then have "a = 2 \<or> a = 3 \<or> a = 4 \<or> a = 5" by linarith
  then show False using h by (elim disjE) (simp_all add: gcd_non_0_nat)
qed

lemma no_liar_8:
  "\<not> (2 \<le> a \<and> (a < 8 \<or> a \<le> 3 \<and> a < 8 + 2) \<and> gcd a 8 = 1 \<and> a ^ (8 - 1) mod 8 = (1::nat))"
proof
  assume h: "2 \<le> a \<and> (a < 8 \<or> a \<le> 3 \<and> a < 8 + 2) \<and> gcd a 8 = 1 \<and> a ^ (8 - 1) mod 8 = (1::nat)"
  then have "a = 2 \<or> a = 3 \<or> a = 4 \<or> a = 5 \<or> a = 6 \<or> a = 7" by linarith
  then show False using h by (elim disjE) (simp_all add: gcd_non_0_nat)
qed

lemma no_liar_10:
  "\<not> (2 \<le> a \<and> (a < 10 \<or> a \<le> 3 \<and> a < 10 + 2) \<and> gcd a 10 = 1 \<and> a ^ (10 - 1) mod 10 = (1::nat))"
proof
  assume h: "2 \<le> a \<and> (a < 10 \<or> a \<le> 3 \<and> a < 10 + 2) \<and> gcd a 10 = 1 \<and> a ^ (10 - 1) mod 10 = (1::nat)"
  then have "a = 2 \<or> a = 3 \<or> a = 4 \<or> a = 5 \<or> a = 6 \<or> a = 7 \<or> a = 8 \<or> a = 9" by linarith
  then show False using h by (elim disjE) (simp_all add: gcd_non_0_nat)
qed

lemma scan_body_flag_prime:
  assumes "scan_body x k cl s0 = Some (Inr (r, s1))" "is_prime x" "x \<notin> set cl" "length cl < 2 ^ 63"
  shows "row_is_really_prime r = 1"
proof -
  obtain v w where t: "fermat_test_gmp x k s0 = Some (Inr (v, w, s1))"
    using assms(1) by (rule scan_body_Inr)
  have v: "v \<noteq> 0"
    using fermat_loop_composite_verdict [of x k 0 s0 w s1] t assms(2)
    by (auto simp: fermat_test_gmp_def)
  have c: "is_carmichael cl x = Some (Inr False)"
    using assms(3,4) by (rule is_carmichael_absent)
  have "Some (Inr (r, s1)) =
      Some (Inr (\<lparr>row_n = x, row_bit_len = (if x = 0 then 1 else 64 - clzll x),
                   row_is_probably_prime = 1, row_witness = None,
                   row_is_really_prime = (if False then 0 else 1)\<rparr>, s1))"
    using scan_body_probable [OF t v c] assms(1) by simp
  then have "r = \<lparr>row_n = x, row_bit_len = (if x = 0 then 1 else 64 - clzll x),
                   row_is_probably_prime = 1, row_witness = None,
                   row_is_really_prime = 1\<rparr>"
    by simp
  then show ?thesis by simp
qed

lemma scan_body_flag_no_liar:
  assumes "scan_body x k cl s0 = Some (Inr (r, s1))" "0 < k"
    and "\<And>a. \<not> (2 \<le> a \<and> (a < x \<or> a \<le> 3 \<and> a < x + 2) \<and> gcd a x = 1 \<and> a ^ (x - 1) mod x = 1)"
  shows "row_is_really_prime r = 0"
proof -
  obtain v w where t: "fermat_test_gmp x k s0 = Some (Inr (v, w, s1))"
    using assms(1) by (rule scan_body_Inr)
  have "v = 0"
  proof (rule ccontr)
    assume "v \<noteq> 0"
    from fermat_loop_first_pass [OF t [unfolded fermat_test_gmp_def] assms(2) this]
    obtain a where
      a: "2 \<le> a \<and> (a < x \<or> a \<le> 3 \<and> a < x + 2) \<and> gcd a x = 1 \<and> a ^ (x - 1) mod x = 1"
      by (elim exE)
    show False by (rule notE [OF assms(3) a])
  qed
  then have "Some (Inr (r, s1)) =
      Some (Inr (\<lparr>row_n = x, row_bit_len = (if x = 0 then 1 else 64 - clzll x),
                   row_is_probably_prime = 0, row_witness = Some w,
                   row_is_really_prime = 0\<rparr>, s1))"
    using scan_body_composite [of x k s0 w s1 cl] t assms(1) by simp
  then have "r = \<lparr>row_n = x, row_bit_len = (if x = 0 then 1 else 64 - clzll x),
                   row_is_probably_prime = 0, row_witness = Some w,
                   row_is_really_prime = 0\<rparr>"
    by simp
  then show ?thesis by simp
qed


lemma scan_1_10_draws_17:
  "scan 1 10 1000000 5 [561, 1105] \<lparr>raw = const_stream 17, pos = 0\<rparr> =
     Some (Inr ([\<lparr>row_n = 1, row_bit_len = 1, row_is_probably_prime = 0,
           row_witness = Some 2, row_is_really_prime = 0\<rparr>,
        \<lparr>row_n = 2, row_bit_len = 2, row_is_probably_prime = 1,
           row_witness = None, row_is_really_prime = 1\<rparr>,
        \<lparr>row_n = 3, row_bit_len = 2, row_is_probably_prime = 1,
           row_witness = None, row_is_really_prime = 1\<rparr>,
        \<lparr>row_n = 4, row_bit_len = 3, row_is_probably_prime = 0,
           row_witness = Some 3, row_is_really_prime = 0\<rparr>,
        \<lparr>row_n = 5, row_bit_len = 3, row_is_probably_prime = 1,
           row_witness = None, row_is_really_prime = 1\<rparr>,
        \<lparr>row_n = 6, row_bit_len = 3, row_is_probably_prime = 0,
           row_witness = Some 5, row_is_really_prime = 0\<rparr>,
        \<lparr>row_n = 7, row_bit_len = 3, row_is_probably_prime = 1,
           row_witness = None, row_is_really_prime = 1\<rparr>,
        \<lparr>row_n = 8, row_bit_len = 4, row_is_probably_prime = 0,
           row_witness = Some 3, row_is_really_prime = 0\<rparr>,
        \<lparr>row_n = 9, row_bit_len = 4, row_is_probably_prime = 1,
           row_witness = None, row_is_really_prime = 1\<rparr>,
        \<lparr>row_n = 10, row_bit_len = 4, row_is_probably_prime = 0,
           row_witness = Some 7, row_is_really_prime = 0\<rparr>],
       \<lparr>raw = const_stream 17, pos = 30\<rparr>))"
  by (simp add: scan_simps run_simps)

text \<open>
  The rows other than that of 9. In a scan of \<open>[1, 10]\<close> with \<open>k = 5\<close> that returns, the
  ten rows are those of the candidates 1 to 10 in ascending order, and for every state of
  the generator the last column is 1 in the rows of 2, 3, 5 and 7 and 0 in the rows of 1, 4,
  6, 8 and 10.
\<close>

lemma scan_1_10_other_rows:
  assumes "0 < CHUNK" "10 + CHUNK < 2 ^ 64"
    and "length cl < 2 ^ 63" "set cl \<inter> {2, 3, 5, 7} = {}"
    and "scan 1 10 CHUNK 5 cl state = Some (Inr (rows, state'))"
  shows "length rows = 10 \<and> map row_n rows = [1, 2, 3, 4, 5, 6, 7, 8, 9, 10] \<and>
         (\<forall>r \<in> set rows. row_n r \<noteq> 9 \<longrightarrow>
            row_is_really_prime r = (if row_n r \<in> {2, 3, 5, 7} then 1 else 0))"
proof -
  have le: "(1::nat) \<le> 10" by simp
  have "scan 1 10 CHUNK 5 cl state = classify_list [1..<Suc 10] 5 cl state []"
    unfolding scan_def using assms(1,2) by (rule outer_loop_classify)
  then have cls: "classify_list [1..<Suc 10] 5 cl state [] = Some (Inr (rows, state'))"
    using assms(5) by simp
  have up: "[1..<Suc 10] = [1, 2, 3, 4, 5, 6, 7, 8, 9, 10]"
    by (simp add: upt_conv_Cons del: upt_Suc)
  from classify_list_rows [OF cls]
  have m: "map row_n rows = [1, 2, 3, 4, 5, 6, 7, 8, 9, 10]"
    and body: "\<forall>r \<in> set rows. \<exists>s0 s1. scan_body (row_n r) 5 cl s0 = Some (Inr (r, s1))"
    unfolding up by auto
  have len: "length rows = 10"
  proof -
    have "length rows = length (map row_n rows)" by simp
    also have "\<dots> = 10" unfolding m by simp
    finally show ?thesis .
  qed
  have flag: "row_is_really_prime r = (if row_n r \<in> {2, 3, 5, 7} then 1 else 0)"
    if r: "r \<in> set rows" and n9: "row_n r \<noteq> 9" for r
  proof -
    obtain s0 s1 where b: "scan_body (row_n r) 5 cl s0 = Some (Inr (r, s1))"
      using body r by blast
    have "row_n r \<in> set (map row_n rows)" using r by simp
    then have "row_n r \<in> {1, 2, 3, 4, 5, 6, 7, 8, 9, 10}" unfolding m by simp
    then consider "row_n r = 2" | "row_n r = 3" | "row_n r = 5" | "row_n r = 7"
      | "row_n r = 1" | "row_n r = 4" | "row_n r = 6" | "row_n r = 8" | "row_n r = 10"
      using n9 by auto
    then show ?thesis
    proof cases
      case 1
      have "row_is_really_prime r = 1"
        using assms(4) by (intro scan_body_flag_prime [OF b [unfolded 1] is_prime_2 _ assms(3)]) auto
      then show ?thesis using 1 by simp
    next
      case 2
      have "row_is_really_prime r = 1"
        using assms(4) by (intro scan_body_flag_prime [OF b [unfolded 2] is_prime_3 _ assms(3)]) auto
      then show ?thesis using 2 by simp
    next
      case 3
      have "row_is_really_prime r = 1"
        using assms(4) by (intro scan_body_flag_prime [OF b [unfolded 3] is_prime_5 _ assms(3)]) auto
      then show ?thesis using 3 by simp
    next
      case 4
      have "row_is_really_prime r = 1"
        using assms(4) by (intro scan_body_flag_prime [OF b [unfolded 4] is_prime_7 _ assms(3)]) auto
      then show ?thesis using 4 by simp
    next
      case 5
      have "row_is_really_prime r = 0"
        by (rule scan_body_flag_no_liar [OF b [unfolded 5] _ no_liar_1]) simp
      then show ?thesis using 5 by simp
    next
      case 6
      have "row_is_really_prime r = 0"
        by (rule scan_body_flag_no_liar [OF b [unfolded 6] _ no_liar_4]) simp
      then show ?thesis using 6 by simp
    next
      case 7
      have "row_is_really_prime r = 0"
        by (rule scan_body_flag_no_liar [OF b [unfolded 7] _ no_liar_6]) simp
      then show ?thesis using 7 by simp
    next
      case 8
      have "row_is_really_prime r = 0"
        by (rule scan_body_flag_no_liar [OF b [unfolded 8] _ no_liar_8]) simp
      then show ?thesis using 8 by simp
    next
      case 9
      have "row_is_really_prime r = 0"
        by (rule scan_body_flag_no_liar [OF b [unfolded 9] _ no_liar_10]) simp
      then show ?thesis using 9 by simp
    qed
  qed
  show ?thesis using len m flag by blast
qed

text \<open>
  With bases in the range that the comment above \<^verbatim>\<open>generate_random_coprime\<close> states,
  \<open>[2, n - 2]\<close>, the candidate 9 has no base that passes the test: 8 is its only liar.
\<close>

lemma no_liar_9_in_range:
  "\<not> (2 \<le> a \<and> a \<le> 9 - 2 \<and> gcd a 9 = 1 \<and> a ^ (9 - 1) mod 9 = (1::nat))"
proof
  assume h: "2 \<le> a \<and> a \<le> 9 - 2 \<and> gcd a 9 = 1 \<and> a ^ (9 - 1) mod 9 = (1::nat)"
  then have "a = 2 \<or> a = 3 \<or> a = 4 \<or> a = 5 \<or> a = 6 \<or> a = 7" by linarith
  then show False using h by (elim disjE) (simp_all add: gcd_non_0_nat)
qed

text \<open>
  C8. The scenario: a scan of \<open>[1, 10]\<close> with \<open>k = 5\<close> writes 10 rows in ascending order,
  with the last column 1 exactly for 2, 3, 5 and 7, for every state of the generator. The
  program does not meet it. With the program's chunk size, when each of the five draws for
  the candidate 9 is 8, the sampler returns the base \<open>8 = n - 1\<close>, outside the range
  \<open>[2, n - 2]\<close> of its own comment; \<open>8 ^ 8 mod 9 = 1\<close>, all five trials pass, 9 is not a
  Carmichael number, and the row of 9 ends in 1. (Here all raw numbers are 17, and
  \<open>17 mod 9 = 8\<close>; 24 draws precede the candidate 9.)
\<close>

theorem scan_1_10_flags_9:
  "flags (scan 1 10 1000000 5 [561, 1105] \<lparr>raw = const_stream 17, pos = 0\<rparr>) =
     Some (Inr [(1, 0), (2, 1), (3, 1), (4, 0), (5, 1), (6, 0), (7, 1), (8, 0), (9, 1), (10, 0)]) \<and>
   generate_random_coprime 9 \<lparr>raw = const_stream 17, pos = 24\<rparr> =
     Some (Inr (8, \<lparr>raw = const_stream 17, pos = 25\<rparr>)) \<and>
   \<not> (8::nat) \<le> 9 - 2 \<and> mpz_powm 8 (9 - 1) 9 = 1"
proof (intro conjI)
  show "flags (scan 1 10 1000000 5 [561, 1105] \<lparr>raw = const_stream 17, pos = 0\<rparr>) =
     Some (Inr [(1, 0), (2, 1), (3, 1), (4, 0), (5, 1), (6, 0), (7, 1), (8, 0), (9, 1), (10, 0)])"
    unfolding scan_1_10_draws_17 by (simp add: flags_def)
  show "generate_random_coprime 9 \<lparr>raw = const_stream 17, pos = 24\<rparr> =
     Some (Inr (8, \<lparr>raw = const_stream 17, pos = 25\<rparr>))"
    by (simp add: run_simps)
  show "\<not> (8::nat) \<le> 9 - 2" by simp
  show "mpz_powm 8 (9 - 1) 9 = 1" by (simp add: mpz_powm_def)
qed

end
